theory Spec2Isabelle
  imports Main "HOL-Library.Multiset"
begin

section \<open>Paths: the destination of a source file\<close>

text \<open>
  Go strings are byte sequences, and so is \<^typ>\<open>string\<close>. \<open>filepath.Ext\<close> depends on the
  platform's path separators, so the platform is a parameter.
\<close>

datatype goos = Unix | Windows

fun IsPathSeparator :: "goos \<Rightarrow> char \<Rightarrow> bool" where
  "IsPathSeparator Unix c = (c = CHR ''/'')"
| "IsPathSeparator Windows c = (c = CHR ''/'' \<or> c = CHR 0x5C)"

text \<open>
  \<open>filepath.Ext\<close> walks the path from its last byte towards the front, stops at a
  separator, and returns the suffix that starts at the first dot it meets. The scan takes
  the bytes still to visit (in reverse) and the bytes already passed.
\<close>

fun ext_scan :: "goos \<Rightarrow> string \<Rightarrow> string \<Rightarrow> string" where
  "ext_scan os [] passed = []"
| "ext_scan os (c # todo) passed =
     (if IsPathSeparator os c then []
      else if c = CHR ''.'' then c # passed
      else ext_scan os todo (c # passed))"

definition Ext :: "goos \<Rightarrow> string \<Rightarrow> string" where
  "Ext os path = ext_scan os (rev path) []"

definition HasSuffix :: "string \<Rightarrow> string \<Rightarrow> bool" where
  "HasSuffix s suffix =
     (length s \<ge> length suffix \<and> drop (length s - length suffix) s = suffix)"

definition TrimSuffix :: "string \<Rightarrow> string \<Rightarrow> string" where
  "TrimSuffix s suffix =
     (if HasSuffix s suffix then take (length s - length suffix) s else s)"

definition getOutputPath :: "goos \<Rightarrow> string \<Rightarrow> string" where
  "getOutputPath os inputPath =
     (let ext = Ext os inputPath in TrimSuffix inputPath ext @ ''.mp3'')"

text \<open>
  The destination as the specification words it: the source path with its final extension
  replaced by \<open>.mp3\<close>. The final extension is what follows the last dot of the last path
  element, the dot included, and nothing when that element has no dot.
\<close>

definition last_element :: "goos \<Rightarrow> string \<Rightarrow> string" where
  "last_element os path = rev (takeWhile (\<lambda>c. \<not> IsPathSeparator os c) (rev path))"

definition final_extension :: "goos \<Rightarrow> string \<Rightarrow> string" where
  "final_extension os path =
     (if CHR ''.'' \<in> set (last_element os path)
      then CHR ''.'' # rev (takeWhile (\<lambda>c. c \<noteq> CHR ''.'') (rev path))
      else [])"

definition replace_final_extension :: "goos \<Rightarrow> string \<Rightarrow> string" where
  "replace_final_extension os path =
     take (length path - length (final_extension os path)) path @ ''.mp3''"

section \<open>Data model\<close>

record AppConfig =
  Workers :: int
  ScanPath :: string
  Recursive :: bool
  Verbose :: bool
  ServerURL :: string
  Timeout :: int

record SynthesizeRequest =
  Text :: string
  VoiceDescription :: "string option"

text \<open>Errors of the operating system and of the HTTP transport, as the causes that the
  program wraps.\<close>

datatype os_error = ErrNotExist | ErrPermission | ErrNoSpace | ErrIO

datatype net_error = NetTimeout | ConnectionRefused | DNSFailure | TransportReset

datatype marshal_error = UnsupportedValue

text \<open>One constructor for each \<open>fmt.Errorf\<close> of \<open>processSingleFile\<close>, holding what the
  format string is given.\<close>

datatype proc_error =
    FailedToReadFile os_error
  | FailedToMarshal marshal_error
  | FailedToSendRequest net_error
  | ServerReturnedStatus int string
  | FailedToReadResponse net_error
  | FailedToWriteMP3 os_error

text \<open>\<open>ProcessResult\<close>; its \<open>Duration\<close> is wall-clock time and is left out.\<close>

record ProcessResult =
  FilePath :: string
  OutputPath :: string
  Error :: "proc_error option"

section \<open>The environment: file system, endpoint, formatting\<close>

text \<open>An HTTP response: its status, the body the server sends, and, when the transport
  fails while the body is read, after how many bytes and with which error.\<close>

record response =
  StatusCode :: int
  Body :: string
  BodyFault :: "(nat \<times> net_error) option"

datatype write_fault = OpenFails os_error | WriteFailsAfter nat os_error

text \<open>What the program cannot control: the platform, which existing files cannot be read,
  which paths cannot be written, how the endpoint answers a request sent to a URL, and how
  \<open>encoding/json\<close> quotes a string.\<close>

record env =
  goos :: goos
  read_fault :: "string \<Rightarrow> os_error option"
  write_fault :: "string \<Rightarrow> write_fault option"
  endpoint :: "string \<Rightarrow> string \<Rightarrow> net_error + response"
  json_quote :: "string \<Rightarrow> string"

datatype event =
    EvReadFile string
  | EvPost string string
  | EvWriteFile string string "os_error option"

text \<open>The mutable world: the content of every existing file, and the log of the calls the
  program has made, oldest first.\<close>

record world =
  fs :: "string \<Rightarrow> string option"
  trace :: "event list"

definition ReadFile :: "env \<Rightarrow> string \<Rightarrow> world \<Rightarrow> (os_error + string) \<times> world" where
  "ReadFile e name w =
     (let w' = w\<lparr>trace := trace w @ [EvReadFile name]\<rparr> in
      case fs w name of
        None \<Rightarrow> (Inl ErrNotExist, w')
      | Some content \<Rightarrow>
          (case read_fault e name of
             Some err \<Rightarrow> (Inl err, w')
           | None \<Rightarrow> (Inr content, w')))"

text \<open>\<open>os.WriteFile\<close> opens the file with \<open>O_CREATE|O_TRUNC\<close>, writes, and closes: a
  failure to open leaves the file as it was, a failure while writing leaves the bytes
  written so far.\<close>

definition WriteFile :: "env \<Rightarrow> string \<Rightarrow> string \<Rightarrow> world \<Rightarrow> os_error option \<times> world" where
  "WriteFile e name data w =
     (case write_fault e name of
        None \<Rightarrow>
          (None, w\<lparr>fs := (fs w)(name \<mapsto> data),
                   trace := trace w @ [EvWriteFile name data None]\<rparr>)
      | Some (OpenFails err) \<Rightarrow>
          (Some err, w\<lparr>trace := trace w @ [EvWriteFile name data (Some err)]\<rparr>)
      | Some (WriteFailsAfter k err) \<Rightarrow>
          (Some err, w\<lparr>fs := (fs w)(name \<mapsto> take k data),
                       trace := trace w @ [EvWriteFile name data (Some err)]\<rparr>))"

definition client_Post :: "env \<Rightarrow> string \<Rightarrow> string \<Rightarrow> world \<Rightarrow> (net_error + response) \<times> world" where
  "client_Post e url body w = (endpoint e url body, w\<lparr>trace := trace w @ [EvPost url body]\<rparr>)"

text \<open>\<open>io.ReadAll\<close> returns the bytes read and the error that stopped it, if any.\<close>

definition ReadAll :: "response \<Rightarrow> string \<times> net_error option" where
  "ReadAll resp =
     (case BodyFault resp of
        None \<Rightarrow> (Body resp, None)
      | Some (k, err) \<Rightarrow> (take k (Body resp), Some err))"

text \<open>\<open>json.Marshal\<close> of a \<open>SynthesizeRequest\<close>: the struct's fields in order, a nil
  \<open>voice_description\<close> omitted (\<open>omitempty\<close>). It has no failing case for this struct.\<close>

definition json_members :: "SynthesizeRequest \<Rightarrow> (string \<times> string) list" where
  "json_members req =
     (''text'', Text req) #
     (case VoiceDescription req of None \<Rightarrow> [] | Some v \<Rightarrow> [(''voice_description'', v)])"

fun json_commas :: "string list \<Rightarrow> string" where
  "json_commas [] = []"
| "json_commas [m] = m"
| "json_commas (m # ms) = m @ '','' @ json_commas ms"

definition json_object :: "(string \<Rightarrow> string) \<Rightarrow> (string \<times> string) list \<Rightarrow> string" where
  "json_object quote members =
     ''{'' @ json_commas (map (\<lambda>(k, v). [CHR 0x22] @ k @ [CHR 0x22] @ '':'' @ quote v) members) @ ''}''"

definition json_Marshal :: "(string \<Rightarrow> string) \<Rightarrow> SynthesizeRequest \<Rightarrow> marshal_error + string" where
  "json_Marshal quote req = Inr (json_object quote (json_members req))"

text \<open>\<open>%d\<close> of \<open>fmt\<close>: the decimal digits, with a minus sign for a negative number.\<close>

definition digit :: "nat \<Rightarrow> char" where
  "digit n = ''0123456789'' ! n"

fun decimal :: "nat \<Rightarrow> string" where
  "decimal n = (if n < 10 then [digit n] else decimal (n div 10) @ [digit (n mod 10)])"

definition Sprintf_d :: "int \<Rightarrow> string" where
  "Sprintf_d i = (if i < 0 then ''-'' @ decimal (nat (- i)) else decimal (nat i))"

text \<open>The message of an error, \<open>err.Error()\<close>, given the messages of the wrapped causes.\<close>

fun Error_text :: "(os_error \<Rightarrow> string) \<Rightarrow> (net_error \<Rightarrow> string) \<Rightarrow> proc_error \<Rightarrow> string" where
  "Error_text ot nt (FailedToReadFile err) = ''failed to read file: '' @ ot err"
| "Error_text ot nt (FailedToMarshal err) = ''failed to marshal request: json: unsupported value''"
| "Error_text ot nt (FailedToSendRequest err) = ''failed to send request: '' @ nt err"
| "Error_text ot nt (ServerReturnedStatus code body) =
     ''server returned status '' @ Sprintf_d code @ '': '' @ body"
| "Error_text ot nt (FailedToReadResponse err) = ''failed to read response: '' @ nt err"
| "Error_text ot nt (FailedToWriteMP3 err) = ''failed to write MP3 file: '' @ ot err"

section \<open>Processing one file\<close>

definition processSingleFile ::
  "env \<Rightarrow> AppConfig \<Rightarrow> string \<Rightarrow> world \<Rightarrow> (string \<times> proc_error option) \<times> world" where
  "processSingleFile e config filePath w =
     (case ReadFile e filePath w of
        (Inl err, w1) \<Rightarrow> (([], Some (FailedToReadFile err)), w1)
      | (Inr content, w1) \<Rightarrow>
          (let reqBody = \<lparr>Text = content, VoiceDescription = None\<rparr> in
           case json_Marshal (json_quote e) reqBody of
             Inl err \<Rightarrow> (([], Some (FailedToMarshal err)), w1)
           | Inr jsonData \<Rightarrow>
               (let url = ServerURL config @ ''/synthesize'' in
                case client_Post e url jsonData w1 of
                  (Inl err, w2) \<Rightarrow> (([], Some (FailedToSendRequest err)), w2)
                | (Inr resp, w2) \<Rightarrow>
                    if StatusCode resp \<noteq> 200 then
                      (let bodyBytes = fst (ReadAll resp) in
                       (([], Some (ServerReturnedStatus (StatusCode resp) bodyBytes)), w2))
                    else
                      (case ReadAll resp of
                         (mp3Data, Some err) \<Rightarrow> (([], Some (FailedToReadResponse err)), w2)
                       | (mp3Data, None) \<Rightarrow>
                           (let outputPath = getOutputPath (goos e) filePath in
                            case WriteFile e outputPath mp3Data w2 of
                              (Some err, w3) \<Rightarrow> (([], Some (FailedToWriteMP3 err)), w3)
                            | (None, w3) \<Rightarrow> ((outputPath, None), w3))))))"

text \<open>The body of the worker's loop for one job: the result it sends.\<close>

definition worker_job :: "env \<Rightarrow> AppConfig \<Rightarrow> string \<Rightarrow> world \<Rightarrow> ProcessResult \<times> world" where
  "worker_job e config filePath w =
     (case processSingleFile e config filePath w of
        ((outputPath, err), w') \<Rightarrow>
          (\<lparr>FilePath = filePath, OutputPath = outputPath, Error = err\<rparr>, w'))"

text \<open>What a call has added to the log, and what the added events say: the requests sent,
  whether a file was written, and the paths whose write went through.\<close>

definition new_events :: "world \<Rightarrow> world \<Rightarrow> event list" where
  "new_events w w' = drop (length (trace w)) (trace w')"

fun is_write :: "event \<Rightarrow> bool" where
  "is_write (EvWriteFile name data r) = True"
| "is_write ev = False"

fun posts :: "event list \<Rightarrow> (string \<times> string) list" where
  "posts [] = []"
| "posts (EvPost url body # evs) = (url, body) # posts evs"
| "posts (ev # evs) = posts evs"

fun written :: "event list \<Rightarrow> string \<Rightarrow> bool" where
  "written [] name = False"
| "written (EvWriteFile n data r # evs) name = ((n = name \<and> r = None) \<or> written evs name)"
| "written (ev # evs) name = written evs name"

text \<open>The failures that \<open>processSingleFile\<close> returns before it calls \<open>os.WriteFile\<close>.\<close>

fun fails_before_write :: "proc_error \<Rightarrow> bool" where
  "fails_before_write (FailedToWriteMP3 err) = False"
| "fails_before_write err = True"

section \<open>The worker pool\<close>

text \<open>
  \<open>processFiles\<close> runs the calling goroutine, one goroutine for each worker, and one that
  waits for the workers and closes the result channel. Each is a small state machine; a
  step of one of them is atomic, and a run is any interleaving of their steps. A worker
  goes through \<open>processSingleFile\<close> in three steps, one for each of its blocking calls
  (read the file, the HTTP round trip, write the file), so that other goroutines can run
  in between. Log lines and the progress bar are not modelled.
\<close>

datatype worker_pc =
    W_recv
  | W_read string
  | W_post string string
  | W_write string string
  | W_send ProcessResult
  | W_done

datatype main_pc =
    M_spawn int
  | M_send "string list"
  | M_close
  | M_closer
  | M_collect
  | M_returned

datatype closer_pc = C_none | C_wait | C_close | C_done

datatype goroutine = Main | Closer | Worker nat

record pool =
  pc_main :: main_pc
  jobs :: "string list"
  jobs_closed :: bool
  results :: "ProcessResult list"
  results_closed :: bool
  wg :: int
  workers :: "worker_pc list"
  closer :: closer_pc
  allResults :: "ProcessResult list"
  pworld :: world

text \<open>A goroutine either takes a step, or is blocked (or has nothing left to do), or
  panics: a send on a closed channel, the close of a closed channel, a negative
  \<open>WaitGroup\<close> counter.\<close>

datatype 'a outcome = Steps 'a | Blocked | Panics

definition numWorkers :: "AppConfig \<Rightarrow> string list \<Rightarrow> int" where
  "numWorkers config files =
     (if Workers config > int (length files) then int (length files) else Workers config)"

definition init_pool :: "world \<Rightarrow> pool" where
  "init_pool w =
     \<lparr>pc_main = M_spawn 0, jobs = [], jobs_closed = False, results = [],
      results_closed = False, wg = 0, workers = [], closer = C_none, allResults = [],
      pworld = w\<rparr>"

text \<open>The calling goroutine: start the workers, send every file on \<open>jobs\<close> (of capacity
  \<open>len(files)\<close>), close it, start the goroutine that closes \<open>results\<close>, and collect
  from \<open>results\<close> until it is closed and empty.\<close>

definition main_step :: "AppConfig \<Rightarrow> string list \<Rightarrow> pool \<Rightarrow> pool outcome" where
  "main_step config files s =
     (case pc_main s of
        M_spawn i \<Rightarrow>
          if i < numWorkers config files
          then Steps (s\<lparr>wg := wg s + 1, workers := workers s @ [W_recv], pc_main := M_spawn (i + 1)\<rparr>)
          else Steps (s\<lparr>pc_main := M_send files\<rparr>)
      | M_send [] \<Rightarrow> Steps (s\<lparr>pc_main := M_close\<rparr>)
      | M_send (file # rest) \<Rightarrow>
          if jobs_closed s then Panics
          else if length (jobs s) < length files
          then Steps (s\<lparr>jobs := jobs s @ [file], pc_main := M_send rest\<rparr>)
          else Blocked
      | M_close \<Rightarrow>
          if jobs_closed s then Panics
          else Steps (s\<lparr>jobs_closed := True, pc_main := M_closer\<rparr>)
      | M_closer \<Rightarrow> Steps (s\<lparr>closer := C_wait, pc_main := M_collect\<rparr>)
      | M_collect \<Rightarrow>
          (case results s of
             result # rest \<Rightarrow>
               Steps (s\<lparr>allResults := allResults s @ [result], results := rest\<rparr>)
           | [] \<Rightarrow> if results_closed s then Steps (s\<lparr>pc_main := M_returned\<rparr>) else Blocked)
      | M_returned \<Rightarrow> Blocked)"

text \<open>The goroutine of \<open>wg.Wait(); close(results)\<close>.\<close>

definition closer_step :: "pool \<Rightarrow> pool outcome" where
  "closer_step s =
     (case closer s of
        C_none \<Rightarrow> Blocked
      | C_wait \<Rightarrow> if wg s = 0 then Steps (s\<lparr>closer := C_close\<rparr>) else Blocked
      | C_close \<Rightarrow>
          if results_closed s then Panics
          else Steps (s\<lparr>results_closed := True, closer := C_done\<rparr>)
      | C_done \<Rightarrow> Blocked)"

text \<open>The three steps of a worker inside \<open>processSingleFile\<close>, each ending either with the
  result to send or at the next blocking call.\<close>

definition fails_with :: "string \<Rightarrow> proc_error \<Rightarrow> worker_pc" where
  "fails_with filePath err = W_send \<lparr>FilePath = filePath, OutputPath = [], Error = Some err\<rparr>"

definition read_step :: "env \<Rightarrow> string \<Rightarrow> world \<Rightarrow> worker_pc \<times> world" where
  "read_step e filePath w =
     (case ReadFile e filePath w of
        (Inl err, w1) \<Rightarrow> (fails_with filePath (FailedToReadFile err), w1)
      | (Inr content, w1) \<Rightarrow> (W_post filePath content, w1))"

definition post_step :: "env \<Rightarrow> AppConfig \<Rightarrow> string \<Rightarrow> string \<Rightarrow> world \<Rightarrow> worker_pc \<times> world" where
  "post_step e config filePath content w1 =
     (let reqBody = \<lparr>Text = content, VoiceDescription = None\<rparr> in
      case json_Marshal (json_quote e) reqBody of
        Inl err \<Rightarrow> (fails_with filePath (FailedToMarshal err), w1)
      | Inr jsonData \<Rightarrow>
          (let url = ServerURL config @ ''/synthesize'' in
           case client_Post e url jsonData w1 of
             (Inl err, w2) \<Rightarrow> (fails_with filePath (FailedToSendRequest err), w2)
           | (Inr resp, w2) \<Rightarrow>
               if StatusCode resp \<noteq> 200 then
                 (let bodyBytes = fst (ReadAll resp) in
                  (fails_with filePath (ServerReturnedStatus (StatusCode resp) bodyBytes), w2))
               else
                 (case ReadAll resp of
                    (mp3Data, Some err) \<Rightarrow> (fails_with filePath (FailedToReadResponse err), w2)
                  | (mp3Data, None) \<Rightarrow> (W_write filePath mp3Data, w2))))"

definition write_step :: "env \<Rightarrow> string \<Rightarrow> string \<Rightarrow> world \<Rightarrow> worker_pc \<times> world" where
  "write_step e filePath mp3Data w2 =
     (let outputPath = getOutputPath (goos e) filePath in
      case WriteFile e outputPath mp3Data w2 of
        (Some err, w3) \<Rightarrow> (fails_with filePath (FailedToWriteMP3 err), w3)
      | (None, w3) \<Rightarrow>
          (W_send \<lparr>FilePath = filePath, OutputPath = outputPath, Error = None\<rparr>, w3))"

text \<open>Worker \<open>i\<close>: receive a job from \<open>jobs\<close>, or finish when it is closed and empty;
  process the job; send the result on \<open>results\<close> (of capacity \<open>len(files)\<close>).\<close>

definition worker_step :: "env \<Rightarrow> AppConfig \<Rightarrow> string list \<Rightarrow> nat \<Rightarrow> pool \<Rightarrow> pool outcome" where
  "worker_step e config files i s =
     (if i \<ge> length (workers s) then Blocked
      else case workers s ! i of
        W_recv \<Rightarrow>
          (case jobs s of
             filePath # rest \<Rightarrow>
               Steps (s\<lparr>jobs := rest, workers := (workers s)[i := W_read filePath]\<rparr>)
           | [] \<Rightarrow>
               if jobs_closed s then
                 (if wg s - 1 < 0 then Panics
                  else Steps (s\<lparr>wg := wg s - 1, workers := (workers s)[i := W_done]\<rparr>))
               else Blocked)
      | W_read filePath \<Rightarrow>
          (case read_step e filePath (pworld s) of
             (pc, w) \<Rightarrow> Steps (s\<lparr>pworld := w, workers := (workers s)[i := pc]\<rparr>))
      | W_post filePath content \<Rightarrow>
          (case post_step e config filePath content (pworld s) of
             (pc, w) \<Rightarrow> Steps (s\<lparr>pworld := w, workers := (workers s)[i := pc]\<rparr>))
      | W_write filePath mp3Data \<Rightarrow>
          (case write_step e filePath mp3Data (pworld s) of
             (pc, w) \<Rightarrow> Steps (s\<lparr>pworld := w, workers := (workers s)[i := pc]\<rparr>))
      | W_send result \<Rightarrow>
          if results_closed s then Panics
          else if length (results s) < length files
          then Steps (s\<lparr>results := results s @ [result], workers := (workers s)[i := W_recv]\<rparr>)
          else Blocked
      | W_done \<Rightarrow> Blocked)"

fun step :: "env \<Rightarrow> AppConfig \<Rightarrow> string list \<Rightarrow> goroutine \<Rightarrow> pool \<Rightarrow> pool outcome" where
  "step e config files Main s = main_step config files s"
| "step e config files Closer s = closer_step s"
| "step e config files (Worker i) s = worker_step e config files i s"

text \<open>A run under a schedule: the goroutines step in the order the schedule names them.
  A schedule that names a goroutine which cannot step is not a run.\<close>

fun exec :: "env \<Rightarrow> AppConfig \<Rightarrow> string list \<Rightarrow> goroutine list \<Rightarrow> pool \<Rightarrow> pool option" where
  "exec e config files [] s = Some s"
| "exec e config files (t # ts) s =
     (case step e config files t s of
        Steps s' \<Rightarrow> exec e config files ts s'
      | Blocked \<Rightarrow> None
      | Panics \<Rightarrow> None)"

text \<open>\<open>processFiles\<close> under a schedule: the list it returns and the world it leaves, when
  the schedule is a run that ends with the calling goroutine returned.\<close>

definition processFiles ::
  "env \<Rightarrow> string list \<Rightarrow> AppConfig \<Rightarrow> goroutine list \<Rightarrow> world \<Rightarrow> (ProcessResult list \<times> world) option" where
  "processFiles e files config sched w =
     (case exec e config files sched (init_pool w) of
        None \<Rightarrow> None
      | Some s \<Rightarrow> if pc_main s = M_returned then Some (allResults s, pworld s) else None)"

text \<open>What is left to do, as a number that every step makes smaller.\<close>

fun main_rank :: "AppConfig \<Rightarrow> string list \<Rightarrow> main_pc \<Rightarrow> nat" where
  "main_rank config files (M_spawn i) =
     2 * nat (numWorkers config files - i) + 8 * length files + 7"
| "main_rank config files (M_send rest) = 8 * length rest + 6"
| "main_rank config files M_close = 5"
| "main_rank config files M_closer = 4"
| "main_rank config files M_collect = 1"
| "main_rank config files M_returned = 0"

fun closer_rank :: "closer_pc \<Rightarrow> nat" where
  "closer_rank C_none = 0"
| "closer_rank C_wait = 2"
| "closer_rank C_close = 1"
| "closer_rank C_done = 0"

fun worker_rank :: "worker_pc \<Rightarrow> nat" where
  "worker_rank W_recv = 1"
| "worker_rank (W_read filePath) = 6"
| "worker_rank (W_post filePath content) = 5"
| "worker_rank (W_write filePath mp3Data) = 4"
| "worker_rank (W_send result) = 3"
| "worker_rank W_done = 0"

definition rank :: "AppConfig \<Rightarrow> string list \<Rightarrow> pool \<Rightarrow> nat" where
  "rank config files s =
     main_rank config files (pc_main s) + closer_rank (closer s)
     + sum_list (map worker_rank (workers s)) + 7 * length (jobs s) + length (results s)"

section \<open>Where the jobs are\<close>

text \<open>
  At any moment of a run a job is in one place: not yet sent by the calling goroutine, in
  the \<open>jobs\<close> channel, being processed by a worker, or turned into a result, which is
  held by a worker about to send it, in the \<open>results\<close> channel, or collected.
\<close>

fun remaining :: "string list \<Rightarrow> main_pc \<Rightarrow> string list" where
  "remaining files (M_spawn i) = files"
| "remaining files (M_send rest) = rest"
| "remaining files pc = []"

fun in_flight :: "worker_pc \<Rightarrow> string list" where
  "in_flight (W_read filePath) = [filePath]"
| "in_flight (W_post filePath content) = [filePath]"
| "in_flight (W_write filePath mp3Data) = [filePath]"
| "in_flight pc = []"

fun unsent :: "worker_pc \<Rightarrow> ProcessResult list" where
  "unsent (W_send result) = [result]"
| "unsent pc = []"

definition outcomes :: "pool \<Rightarrow> ProcessResult list" where
  "outcomes s = concat (map unsent (workers s)) @ results s @ allResults s"

definition accounted :: "string list \<Rightarrow> pool \<Rightarrow> bool" where
  "accounted files s =
     (mset (remaining files (pc_main s)) + mset (jobs s)
      + mset (concat (map in_flight (workers s))) + mset (map FilePath (outcomes s))
      = mset files)"

fun closed_at :: "main_pc \<Rightarrow> bool" where
  "closed_at (M_spawn i) = False"
| "closed_at (M_send rest) = False"
| "closed_at M_close = False"
| "closed_at pc = True"

fun collecting :: "main_pc \<Rightarrow> bool" where
  "collecting M_collect = True"
| "collecting M_returned = True"
| "collecting pc = False"

fun live :: "worker_pc \<Rightarrow> nat" where
  "live W_done = 0"
| "live pc = 1"

fun spawned :: "AppConfig \<Rightarrow> string list \<Rightarrow> main_pc \<Rightarrow> int" where
  "spawned config files (M_spawn i) = i"
| "spawned config files pc = max 0 (numWorkers config files)"

text \<open>What holds in every state of a run: every job is in one place; the \<open>WaitGroup\<close>
  counts the workers that have not finished; the channels are closed at the points of the
  code that close them; a worker has finished only after \<open>jobs\<close> was closed and drained;
  \<open>results\<close> is closed only after every worker has finished.\<close>

definition pool_inv :: "AppConfig \<Rightarrow> string list \<Rightarrow> pool \<Rightarrow> bool" where
  "pool_inv config files s =
     (accounted files s
      \<and> wg s = int (sum_list (map live (workers s)))
      \<and> jobs_closed s = closed_at (pc_main s)
      \<and> (closer s = C_none) = (\<not> collecting (pc_main s))
      \<and> int (length (workers s)) = spawned config files (pc_main s)
      \<and> 0 \<le> spawned config files (pc_main s)
      \<and> spawned config files (pc_main s) \<le> max 0 (numWorkers config files)
      \<and> (W_done \<in> set (workers s) \<longrightarrow> jobs_closed s \<and> jobs s = [])
      \<and> (closer s = C_close \<or> closer s = C_done \<longrightarrow> (\<forall>pc \<in> set (workers s). pc = W_done))
      \<and> results_closed s = (closer s = C_done)
      \<and> (pc_main s = M_returned \<longrightarrow> results_closed s \<and> results s = []))"

text \<open>The jobs and results that the workers hold, as a multiset of paths; and what a
  processing step of a job leads to: the next step of the same job, or its result.\<close>

definition held :: "worker_pc list \<Rightarrow> string multiset" where
  "held ws = mset (concat (map in_flight ws)) + mset (map FilePath (concat (map unsent ws)))"

definition continues :: "string \<Rightarrow> worker_pc \<Rightarrow> bool" where
  "continues f pc =
     ((\<exists>c. pc = W_post f c) \<or> (\<exists>d. pc = W_write f d) \<or> (\<exists>r. pc = W_send r \<and> FilePath r = f))"

section \<open>A job on its own\<close>

text \<open>
  What a job gives when nothing else runs: its result, and the content it leaves at its
  destination path, both from the world in which the pool starts. And what a write leaves
  at the path it is given, from what was there.
\<close>

definition job_result :: "env \<Rightarrow> AppConfig \<Rightarrow> world \<Rightarrow> string \<Rightarrow> ProcessResult" where
  "job_result e config w0 filePath = fst (worker_job e config filePath w0)"

definition job_file :: "env \<Rightarrow> AppConfig \<Rightarrow> world \<Rightarrow> string \<Rightarrow> string option" where
  "job_file e config w0 filePath =
     fs (snd (worker_job e config filePath w0)) (getOutputPath (goos e) filePath)"






text \<open>What holds of the results in every state of a run that starts from the world
  \<open>w0\<close>: the log has only grown, no write was to the empty path, and every result either
  has no error, the destination of its job as output path, and a write to it that went
  through, to a file that exists, or has an error and the empty output path.\<close>

definition result_ok :: "env \<Rightarrow> event list \<Rightarrow> (string \<Rightarrow> string option) \<Rightarrow> ProcessResult \<Rightarrow> bool" where
  "result_ok e evs files_now r =
     (if Error r = None
      then OutputPath r = getOutputPath (goos e) (FilePath r)
           \<and> written evs (OutputPath r) \<and> files_now (OutputPath r) \<noteq> None
      else OutputPath r = [])"

definition res_inv :: "env \<Rightarrow> world \<Rightarrow> pool \<Rightarrow> bool" where
  "res_inv e w0 s =
     (trace (pworld s) = trace w0 @ new_events w0 (pworld s)
      \<and> \<not> written (new_events w0 (pworld s)) []
      \<and> (\<forall>r \<in> set (outcomes s). result_ok e (new_events w0 (pworld s)) (fs (pworld s)) r))"

section \<open>The run and its exit status\<close>

text \<open>\<open>printSummary\<close> writes the counts of successful and failed results.\<close>

fun count_results :: "ProcessResult list \<Rightarrow> nat \<times> nat \<Rightarrow> nat \<times> nat" where
  "count_results [] (successful, failed) = (successful, failed)"
| "count_results (result # rest) (successful, failed) =
     (if Error result = None then count_results rest (successful + 1, failed)
      else count_results rest (successful, failed + 1))"

definition printSummary :: "ProcessResult list \<Rightarrow> bool \<Rightarrow> nat \<times> nat" where
  "printSummary rs verbose = count_results rs (0, 0)"

datatype run_error = FailedToScan os_error

text \<open>\<open>run\<close>, given what \<open>discoverFiles\<close> returns and the results that \<open>processFiles\<close>
  returns for the files found (its error is always nil): the error of \<open>run\<close>.\<close>

definition run :: "AppConfig \<Rightarrow> os_error + string list \<Rightarrow> (string list \<Rightarrow> ProcessResult list) \<Rightarrow> run_error option" where
  "run config discovered process =
     (case discovered of
        Inl err \<Rightarrow> Some (FailedToScan err)
      | Inr files \<Rightarrow>
          if length files = 0 then None
          else (let rs = process files;
                    summary = printSummary rs (Verbose config)
                in None))"

text \<open>The exit status of \<open>main\<close>, from the configuration after flag parsing and whether
  the scan path exists: 1 from each \<open>os.Exit(1)\<close>, 0 when \<open>main\<close> returns.\<close>

definition main_exit ::
  "AppConfig \<Rightarrow> bool \<Rightarrow> os_error + string list \<Rightarrow> (string list \<Rightarrow> ProcessResult list) \<Rightarrow> int" where
  "main_exit config scan_path_exists discovered process =
     (if ScanPath config = [] then 1
      else if \<not> scan_path_exists then 1
      else if Workers config < 1 then 1
      else if Timeout config < 1000000000 then 1
      else case run config discovered process of
             Some err \<Rightarrow> 1
           | None \<Rightarrow> 0)"

text \<open>The results that a run of \<open>processFiles\<close> hands to \<open>run\<close>, the content of a
  file after the run, and the calls made during the run.\<close>

definition processed :: "env \<Rightarrow> AppConfig \<Rightarrow> goroutine list \<Rightarrow> world \<Rightarrow> string list \<Rightarrow> ProcessResult list" where
  "processed e config sched w files =
     (case processFiles e files config sched w of
        None \<Rightarrow> []
      | Some (rs, w') \<Rightarrow> rs)"

definition file_after ::
  "env \<Rightarrow> string list \<Rightarrow> AppConfig \<Rightarrow> goroutine list \<Rightarrow> world \<Rightarrow> string \<Rightarrow> string option option" where
  "file_after e files config sched w name =
     (case processFiles e files config sched w of
        None \<Rightarrow> None
      | Some (rs, w') \<Rightarrow> Some (fs w' name))"

definition events_of_run ::
  "env \<Rightarrow> string list \<Rightarrow> AppConfig \<Rightarrow> goroutine list \<Rightarrow> world \<Rightarrow> event list" where
  "events_of_run e files config sched w =
     (case processFiles e files config sched w of
        None \<Rightarrow> []
      | Some (rs, w') \<Rightarrow> new_events w w')"

section \<open>Scenarios\<close>

text \<open>Concrete endpoints, a configuration and a directory, after the scenarios of the
  specification: the messages of the wrapped errors, an endpoint that always answers 200 with fixed bytes, one that always
  answers 500, one that times out, one that refuses the connection, one whose 500 answer
  is cut by the timeout while its body is read, and one that answers 200 with the request
  it was sent.\<close>

definition quote_plain :: "string \<Rightarrow> string" where
  "quote_plain s = [CHR 0x22] @ s @ [CHR 0x22]"

definition always_ok :: "string \<Rightarrow> string \<Rightarrow> net_error + response" where
  "always_ok url body = Inr \<lparr>StatusCode = 200, Body = ''ID3FAKEMP3'', BodyFault = None\<rparr>"

definition always_500 :: "string \<Rightarrow> string \<Rightarrow> net_error + response" where
  "always_500 url body = Inr \<lparr>StatusCode = 500, Body = ''overloaded'', BodyFault = None\<rparr>"

definition times_out :: "string \<Rightarrow> string \<Rightarrow> net_error + response" where
  "times_out url body = Inl NetTimeout"

definition refuses :: "string \<Rightarrow> string \<Rightarrow> net_error + response" where
  "refuses url body = Inl ConnectionRefused"

definition cut_500 :: "string \<Rightarrow> string \<Rightarrow> net_error + response" where
  "cut_500 url body =
     Inr \<lparr>StatusCode = 500, Body = ''overloaded'', BodyFault = Some (4, NetTimeout)\<rparr>"

definition short_500 :: "string \<Rightarrow> string \<Rightarrow> net_error + response" where
  "short_500 url body = Inr \<lparr>StatusCode = 500, Body = ''over'', BodyFault = None\<rparr>"

definition echo :: "string \<Rightarrow> string \<Rightarrow> net_error + response" where
  "echo url body = Inr \<lparr>StatusCode = 200, Body = body, BodyFault = None\<rparr>"

fun os_text :: "os_error \<Rightarrow> string" where
  "os_text ErrNotExist = ''no such file or directory''"
| "os_text ErrPermission = ''permission denied''"
| "os_text ErrNoSpace = ''no space left on device''"
| "os_text ErrIO = ''input/output error''"

fun net_text :: "net_error \<Rightarrow> string" where
  "net_text NetTimeout = ''context deadline exceeded''"
| "net_text ConnectionRefused = ''connection refused''"
| "net_text DNSFailure = ''no such host''"
| "net_text TransportReset = ''connection reset by peer''"

definition scenario_env :: "(string \<Rightarrow> string \<Rightarrow> net_error + response) \<Rightarrow> env" where
  "scenario_env ep =
     \<lparr>goos = Unix, read_fault = (\<lambda>name. None), write_fault = (\<lambda>name. None),
      endpoint = ep, json_quote = quote_plain\<rparr>"

definition scenario_config :: AppConfig where
  "scenario_config =
     \<lparr>Workers = 2, ScanPath = ''books'', Recursive = False, Verbose = False,
      ServerURL = ''http://localhost:8000'', Timeout = 600000000000\<rparr>"

definition scenario_world :: world where
  "scenario_world =
     \<lparr>fs = [''a.txt'' \<mapsto> ''one'', ''b.txt'' \<mapsto> ''two'', ''b.TXT'' \<mapsto> ''three''], trace = []\<rparr>"

text \<open>A schedule for two files and two workers: the calling goroutine starts the workers
  and sends the jobs; the workers take one job each and run interleaved, the second
  finishing its job first; the results channel is closed and the results are collected.\<close>

definition sched2 :: "goroutine list" where
  "sched2 =
     [Main, Main, Main, Main, Main, Main, Main, Main,
      Worker 0, Worker (Suc 0), Worker 0, Worker (Suc 0), Worker (Suc 0), Worker 0,
      Worker (Suc 0), Worker 0, Worker (Suc 0), Worker 0, Worker 0, Worker (Suc 0),
      Closer, Closer, Main, Main, Main]"


definition sched2_failing :: "goroutine list" where
  "sched2_failing =
     [Main, Main, Main, Main, Main, Main, Main, Main,
      Worker 0, Worker (Suc 0), Worker 0, Worker (Suc 0), Worker (Suc 0), Worker 0,
      Worker (Suc 0), Worker 0, Worker 0, Worker (Suc 0),
      Closer, Closer, Main, Main, Main]"

text \<open>A schedule for one file, for which one worker is started; and one for two files and
  two workers when the second worker's job fails at the read.\<close>

definition sched_single :: "goroutine list" where
  "sched_single =
     [Main, Main, Main, Main, Main, Main,
      Worker 0, Worker 0, Worker 0, Worker 0,
      Closer, Closer, Main, Main]"

definition sched2_partial :: "goroutine list" where
  "sched2_partial =
     [Main, Main, Main, Main, Main, Main, Main, Main,
      Worker 0, Worker (Suc 0), Worker 0, Worker (Suc 0), Worker (Suc 0), Worker 0,
      Worker 0, Worker 0, Worker 0, Worker (Suc 0),
      Closer, Closer, Main, Main, Main]"

text \<open>An endpoint that rejects a request of more than 24 bytes; a directory in which
  \<open>c.mp3\<close>, the destination of \<open>c\<close>, is itself a source; and a schedule for two files and
  one worker when the second job fails before the write.\<close>

definition rejects_long :: "string \<Rightarrow> string \<Rightarrow> net_error + response" where
  "rejects_long url body =
     (if length body > 24
      then Inr \<lparr>StatusCode = 413, Body = ''too long'', BodyFault = None\<rparr>
      else Inr \<lparr>StatusCode = 200, Body = ''ID3FAKEMP3ID3FAKEMP3'', BodyFault = None\<rparr>)"

definition overlap_world :: world where
  "overlap_world = \<lparr>fs = [''c'' \<mapsto> ''hi'', ''c.mp3'' \<mapsto> ''yo''], trace = []\<rparr>"


section \<open>The destination path\<close>

lemma ext_scan_char:
  "ext_scan os xs passed =
     (if CHR ''.'' \<in> set (takeWhile (\<lambda>c. \<not> IsPathSeparator os c) xs)
      then CHR ''.'' # rev (takeWhile (\<lambda>c. c \<noteq> CHR ''.'') xs) @ passed
      else [])"
proof (induction xs arbitrary: passed)
  case Nil
  show ?case by simp
next
  case (Cons c xs)
  show ?case
  proof (cases "IsPathSeparator os c")
    case True
    then show ?thesis by simp
  next
    case False
    then show ?thesis using Cons.IH [of "c # passed"] by simp
  qed
qed

lemma Ext_final_extension: "Ext os path = final_extension os path"
  by (simp add: Ext_def final_extension_def last_element_def ext_scan_char)

lemma dot_suffix:
  assumes "CHR ''.'' \<in> set path"
  shows "\<exists>stem. path = stem @ CHR ''.'' # rev (takeWhile (\<lambda>c. c \<noteq> CHR ''.'') (rev path))"
proof -
  let ?P = "\<lambda>c. c \<noteq> CHR ''.''"
  have "dropWhile ?P (rev path) \<noteq> []"
    using assms by (simp add: dropWhile_eq_Nil_conv)
  then obtain d ds where d: "dropWhile ?P (rev path) = d # ds"
    by (cases "dropWhile ?P (rev path)") auto
  then have "\<not> ?P d"
    using hd_dropWhile [of ?P "rev path"] by auto
  then have dd: "d = CHR ''.''" by simp
  have "rev path = takeWhile ?P (rev path) @ dropWhile ?P (rev path)" by simp
  then have "rev (rev path) = rev (takeWhile ?P (rev path) @ CHR ''.'' # ds)"
    using d dd by simp
  then have "path = rev ds @ CHR ''.'' # rev (takeWhile ?P (rev path))" by simp
  then show ?thesis by blast
qed

lemma final_extension_suffix: "\<exists>stem. path = stem @ final_extension os path"
proof (cases "CHR ''.'' \<in> set (last_element os path)")
  case True
  then have "CHR ''.'' \<in> set path"
    by (auto simp: last_element_def dest: set_takeWhileD)
  then show ?thesis
    using True dot_suffix [of path] by (simp add: final_extension_def)
next
  case False
  then show ?thesis by (simp add: final_extension_def)
qed

lemma TrimSuffix_append: "TrimSuffix (stem @ suffix) suffix = stem"
  by (simp add: TrimSuffix_def HasSuffix_def)

lemma getOutputPath_stem:
  assumes "path = stem @ final_extension os path"
  shows "getOutputPath os path = stem @ ''.mp3''"
    and "replace_final_extension os path = stem @ ''.mp3''"
proof -
  have "TrimSuffix path (final_extension os path) = stem"
    using TrimSuffix_append [of stem "final_extension os path"] assms by simp
  then show "getOutputPath os path = stem @ ''.mp3''"
    by (simp add: getOutputPath_def Ext_final_extension)
  have "take (length path - length (final_extension os path)) path = stem"
    using assms by (metis append_eq_conv_conj length_append add_diff_cancel_right')
  then show "replace_final_extension os path = stem @ ''.mp3''"
    by (simp add: replace_final_extension_def)
qed

lemmas path_defs = getOutputPath_def Ext_def TrimSuffix_def HasSuffix_def

lemma getOutputPath_chapter1: "getOutputPath os ''chapter1.txt'' = ''chapter1.mp3''"
  by (cases os) (simp_all add: path_defs)

lemma getOutputPath_backup: "getOutputPath os ''file.txt.backup'' = ''file.txt.mp3''"
  by (cases os) (simp_all add: path_defs)

lemma getOutputPath_not_Nil: "getOutputPath os path \<noteq> []"
  by (simp add: getOutputPath_def)

text \<open>
  C5. On either platform and for every source path, \<open>getOutputPath\<close> returns the source
  path with its final extension replaced by \<open>.mp3\<close> (the specification's wording, as
  \<^const>\<open>replace_final_extension\<close>); \<open>chapter1.txt\<close> gives \<open>chapter1.mp3\<close> and
  \<open>file.txt.backup\<close> gives \<open>file.txt.mp3\<close>. It is a function of the path alone. A path
  whose last element has no dot gets \<open>.mp3\<close> appended.
\<close>

theorem getOutputPath_replaces_final_extension:
  "getOutputPath os path = replace_final_extension os path
   \<and> getOutputPath os ''chapter1.txt'' = ''chapter1.mp3''
   \<and> getOutputPath os ''file.txt.backup'' = ''file.txt.mp3''"
proof -
  obtain stem where "path = stem @ final_extension os path"
    using final_extension_suffix by blast
  then have "getOutputPath os path = replace_final_extension os path"
    using getOutputPath_stem by metis
  then show ?thesis
    using getOutputPath_chapter1 getOutputPath_backup by simp
qed

theorem getOutputPath_replaces_final_extension_witness:
  "getOutputPath Unix ''books/vol.1/notes'' = ''books/vol.1/notes.mp3''
   \<and> replace_final_extension Unix ''books/vol.1/notes'' = ''books/vol.1/notes.mp3''"
  using getOutputPath_replaces_final_extension [of Unix "''books/vol.1/notes''"]
  by (simp add: path_defs)

section \<open>One job\<close>

lemma new_events_append [simp]: "new_events w (w'\<lparr>trace := trace w @ evs\<rparr>) = evs"
  by (simp add: new_events_def)

lemmas psf_defs = processSingleFile_def ReadFile_def client_Post_def WriteFile_def
  json_Marshal_def ReadAll_def Let_def

lemmas scenario_defs = scenario_env_def scenario_config_def scenario_world_def quote_plain_def
  always_ok_def always_500_def times_out_def refuses_def cut_500_def short_500_def echo_def
  rejects_long_def overlap_world_def

text \<open>The three steps that a worker of the pool takes for a job, run one after the other
  with nothing in between, are the body of the worker's loop: they end with the result
  of \<open>worker_job\<close> to send, in the world that \<open>worker_job\<close> leaves.\<close>

lemma steps_are_worker_job:
  "(case read_step e f w of
      (W_post f1 c, w1) \<Rightarrow>
        (case post_step e config f c w1 of
           (W_write f2 d, w2) \<Rightarrow> write_step e f d w2
         | (pc, w2) \<Rightarrow> (pc, w2))
    | (pc, w1) \<Rightarrow> (pc, w1))
   = (W_send (fst (worker_job e config f w)), snd (worker_job e config f w))"
  by (auto simp: worker_job_def psf_defs read_step_def post_step_def write_step_def fails_with_def
      split: option.splits sum.splits if_splits write_fault.splits prod.splits)

lemma single_always_500:
  "processSingleFile (scenario_env always_500) scenario_config ''a.txt'' scenario_world =
     (([], Some (ServerReturnedStatus 500 ''overloaded'')),
      scenario_world\<lparr>trace := trace scenario_world @
         [EvReadFile ''a.txt'',
          EvPost ''http://localhost:8000/synthesize''
            (json_object quote_plain [(''text'', ''one'')])]\<rparr>)"
  by (simp add: psf_defs scenario_defs json_members_def)

text \<open>
  C3. A job whose HTTP call exceeds the timeout should fail with a timeout error that is
  classified apart from other network failures. The program has no such class. Evaluated
  on the scenarios: a timeout before the response arrives and a refused connection both
  give the error of the one \<open>failed to send request\<close> site, apart only in the wrapped
  transport error; and a timeout that cuts the body of a 500 response gives the very
  error that a complete 500 response with the shorter body gives, with no trace of the
  timeout.
\<close>

theorem timeout_has_no_class:
  "fst (processSingleFile (scenario_env times_out) scenario_config ''a.txt'' scenario_world)
     = ([], Some (FailedToSendRequest NetTimeout))
   \<and> fst (processSingleFile (scenario_env refuses) scenario_config ''a.txt'' scenario_world)
     = ([], Some (FailedToSendRequest ConnectionRefused))
   \<and> fst (processSingleFile (scenario_env cut_500) scenario_config ''a.txt'' scenario_world)
     = ([], Some (ServerReturnedStatus 500 ''over''))
   \<and> fst (processSingleFile (scenario_env short_500) scenario_config ''a.txt'' scenario_world)
     = ([], Some (ServerReturnedStatus 500 ''over''))"
  by (simp add: psf_defs scenario_defs json_members_def)

text \<open>
  C4. Whenever \<open>processSingleFile\<close> calls \<open>os.WriteFile\<close>, it is on the destination path
  and with the complete body of a 200 response, read to its end before the call. And a
  job that fails before that call (read failure, request failure, non-200 response,
  body-read failure) has written nothing: the files are as they were, those at the
  destination path included. (A failure of the write itself is outside the claim.)
\<close>

theorem failure_before_write_leaves_files:
  assumes "processSingleFile e config filePath w = ((outputPath, err), w')"
  shows "(\<forall>name data r. EvWriteFile name data r \<in> set (new_events w w') \<longrightarrow>
            name = getOutputPath (goos e) filePath
            \<and> (\<exists>content resp.
                 fst (ReadFile e filePath w) = Inr content
                 \<and> endpoint e (ServerURL config @ ''/synthesize'')
                      (json_object (json_quote e) [(''text'', content)]) = Inr resp
                 \<and> StatusCode resp = 200 \<and> BodyFault resp = None \<and> data = Body resp))
     \<and> ((\<exists>perr. err = Some perr \<and> fails_before_write perr) \<longrightarrow>
            fs w' = fs w \<and> \<not> list_ex is_write (new_events w w'))"
  using assms
  by (auto simp: psf_defs json_members_def
      split: option.splits sum.splits if_splits write_fault.splits)

theorem failure_before_write_leaves_files_witness:
  "processSingleFile (scenario_env always_500) scenario_config ''a.txt'' scenario_world =
     (([], Some (ServerReturnedStatus 500 ''overloaded'')),
      scenario_world\<lparr>trace := trace scenario_world @
         [EvReadFile ''a.txt'',
          EvPost ''http://localhost:8000/synthesize''
            (json_object quote_plain [(''text'', ''one'')])]\<rparr>)
   \<and> fails_before_write (ServerReturnedStatus 500 ''overloaded'')
   \<and> fs (scenario_world\<lparr>trace := trace scenario_world @
         [EvReadFile ''a.txt'',
          EvPost ''http://localhost:8000/synthesize''
            (json_object quote_plain [(''text'', ''one'')])]\<rparr>) = fs scenario_world"
  using failure_before_write_leaves_files [OF single_always_500] single_always_500
  by simp

text \<open>
  C7. When the file is read, the endpoint answers the request with a status other than
  200 and the body arrives in full, \<open>processSingleFile\<close> returns the empty output path and
  the error \<open>server returned status <code>: <body>\<close>, whose message holds the status in
  decimal and the body as it came; the job writes no file.
\<close>

theorem non200_server_error:
  assumes "fst (ReadFile e filePath w) = Inr content"
    and "endpoint e (ServerURL config @ ''/synthesize'')
           (json_object (json_quote e) [(''text'', content)]) = Inr resp"
    and "StatusCode resp \<noteq> 200"
    and "BodyFault resp = None"
    and "processSingleFile e config filePath w = ((outputPath, err), w')"
  shows "outputPath = []
     \<and> err = Some (ServerReturnedStatus (StatusCode resp) (Body resp))
     \<and> Error_text ot nt (ServerReturnedStatus (StatusCode resp) (Body resp)) =
         ''server returned status '' @ Sprintf_d (StatusCode resp) @ '': '' @ Body resp
     \<and> fs w' = fs w
     \<and> \<not> list_ex is_write (new_events w w')"
  using assms
  by (auto simp: psf_defs json_members_def split: option.splits)

theorem non200_server_error_witness:
  "fst (ReadFile (scenario_env always_500) ''a.txt'' scenario_world) = Inr ''one''
   \<and> fst (processSingleFile (scenario_env always_500) scenario_config ''a.txt'' scenario_world)
       = ([], Some (ServerReturnedStatus 500 ''overloaded''))
   \<and> Error_text os_text net_text (ServerReturnedStatus 500 ''overloaded'') =
       ''server returned status 500: overloaded''"
proof -
  let ?e = "scenario_env always_500"
  let ?resp = "\<lparr>StatusCode = 500, Body = ''overloaded'', BodyFault = None\<rparr>"
  have rd: "fst (ReadFile ?e ''a.txt'' scenario_world) = Inr ''one''"
    by (simp add: ReadFile_def scenario_defs)
  have ep: "endpoint ?e (ServerURL scenario_config @ ''/synthesize'')
              (json_object (json_quote ?e) [(''text'', ''one'')]) = Inr ?resp"
    by (simp add: scenario_defs)
  have "Error_text os_text net_text (ServerReturnedStatus (StatusCode ?resp) (Body ?resp)) =
         ''server returned status '' @ Sprintf_d (StatusCode ?resp) @ '': '' @ Body ?resp"
    using non200_server_error [OF rd ep _ _ single_always_500, of os_text net_text] by simp
  then show ?thesis
    using rd single_always_500 by (simp add: Sprintf_d_def digit_def)
qed

text \<open>
  C8. When the source file cannot be read (it does not exist, or the read fails), the
  worker's job yields the one result for that path with the read error and an empty
  output path; the only call made is the read, so no request is sent, and the files are
  as they were, so no destination file is created. The witness also runs the pool on the
  one missing file: one result, one call (the read), no destination file.
\<close>

theorem read_failure_result:
  assumes "fst (ReadFile e filePath w) = Inl err"
  shows "worker_job e config filePath w =
           (\<lparr>FilePath = filePath, OutputPath = [], Error = Some (FailedToReadFile err)\<rparr>,
            w\<lparr>trace := trace w @ [EvReadFile filePath]\<rparr>)"
  using assms
  by (auto simp: worker_job_def psf_defs split: option.splits)

theorem read_failure_result_witness:
  "fst (ReadFile (scenario_env always_ok) ''missing.txt'' scenario_world) = Inl ErrNotExist
   \<and> worker_job (scenario_env always_ok) scenario_config ''missing.txt'' scenario_world =
       (\<lparr>FilePath = ''missing.txt'', OutputPath = [], Error = Some (FailedToReadFile ErrNotExist)\<rparr>,
        scenario_world\<lparr>trace := trace scenario_world @ [EvReadFile ''missing.txt'']\<rparr>)
   \<and> processed (scenario_env always_ok) scenario_config sched_single scenario_world
         [''missing.txt'']
       = [\<lparr>FilePath = ''missing.txt'', OutputPath = [],
           Error = Some (FailedToReadFile ErrNotExist)\<rparr>]
   \<and> events_of_run (scenario_env always_ok) [''missing.txt''] scenario_config sched_single
         scenario_world = [EvReadFile ''missing.txt'']
   \<and> file_after (scenario_env always_ok) [''missing.txt''] scenario_config sched_single
         scenario_world ''missing.mp3'' = Some None"
proof -
  have rd: "fst (ReadFile (scenario_env always_ok) ''missing.txt'' scenario_world) = Inl ErrNotExist"
    by (simp add: ReadFile_def scenario_defs)
  have pool: "processed (scenario_env always_ok) scenario_config sched_single scenario_world
         [''missing.txt'']
       = [\<lparr>FilePath = ''missing.txt'', OutputPath = [],
           Error = Some (FailedToReadFile ErrNotExist)\<rparr>]
     \<and> events_of_run (scenario_env always_ok) [''missing.txt''] scenario_config sched_single
         scenario_world = [EvReadFile ''missing.txt'']
     \<and> file_after (scenario_env always_ok) [''missing.txt''] scenario_config sched_single
         scenario_world ''missing.mp3'' = Some None"
    by (simp add: processed_def events_of_run_def file_after_def processFiles_def
        sched_single_def main_step_def closer_step_def worker_step_def read_step_def
        fails_with_def init_pool_def numWorkers_def ReadFile_def scenario_defs new_events_def)
  show ?thesis
    using rd read_failure_result [OF rd, of scenario_config] pool by simp
qed

text \<open>
  The body of the worker's loop, run without interruption: the result has no error exactly
  when its output path is a file that the job has written.
\<close>

lemma job_error_iff_written:
  assumes "worker_job e config filePath w = (r, w')"
  shows "(Error r = None \<longleftrightarrow> written (new_events w w') (OutputPath r))
     \<and> (Error r = None \<longrightarrow>
          OutputPath r = getOutputPath (goos e) filePath \<and> fs w' (OutputPath r) \<noteq> None)
     \<and> (Error r \<noteq> None \<longrightarrow> OutputPath r = [])"
  using assms getOutputPath_not_Nil [of "goos e" filePath]
  by (auto simp: worker_job_def psf_defs json_members_def
      split: option.splits sum.splits if_splits write_fault.splits prod.splits)

text \<open>
  C10. The requests that a job sends: none when the file cannot be read, and otherwise
  exactly one, to \<open>{server_url}/synthesize\<close>, whose JSON object has the single member
  \<open>text\<close> with the content read from the file. The request is built with a nil
  \<open>VoiceDescription\<close>, so no \<open>voice_description\<close> member is written.
\<close>

theorem request_has_text_only:
  "posts (new_events w (snd (processSingleFile e config filePath w))) =
     (case fst (ReadFile e filePath w) of
        Inl err \<Rightarrow> []
      | Inr content \<Rightarrow>
          [(ServerURL config @ ''/synthesize'',
            json_object (json_quote e) (json_members \<lparr>Text = content, VoiceDescription = None\<rparr>))])
   \<and> json_members \<lparr>Text = content', VoiceDescription = None\<rparr> = [(''text'', content')]"
  by (auto simp: psf_defs json_members_def
      split: option.splits sum.splits if_splits write_fault.splits prod.splits)

theorem request_has_text_only_witness:
  "posts (new_events scenario_world
       (snd (processSingleFile (scenario_env always_500) scenario_config ''a.txt'' scenario_world))) =
     [(''http://localhost:8000/synthesize'',
       ''{'' @ [CHR 0x22] @ ''text'' @ [CHR 0x22] @ '':'' @ [CHR 0x22] @ ''one'' @ [CHR 0x22] @ ''}'')]"
  using request_has_text_only [of scenario_world "scenario_env always_500" scenario_config "''a.txt''"]
  by (simp add: ReadFile_def scenario_defs json_members_def json_object_def)

section \<open>Every job gives one result\<close>

lemma mset_concat_update:
  "i < length xs \<Longrightarrow>
   mset (concat (map f (xs[i := y]))) + mset (f (xs ! i)) = mset (concat (map f xs)) + mset (f y)"
proof (induction xs arbitrary: i)
  case Nil
  then show ?case by simp
next
  case (Cons x xs)
  show ?case
  proof (cases i)
    case 0
    then show ?thesis by simp
  next
    case (Suc j)
    then have "j < length xs" using Cons.prems by simp
    from Cons.IH [OF this] show ?thesis using Suc by (simp add: ac_simps)
  qed
qed

lemma sum_list_update_nat:
  fixes f :: "'a \<Rightarrow> nat"
  shows "i < length xs \<Longrightarrow>
   sum_list (map f (xs[i := y])) + f (xs ! i) = sum_list (map f xs) + f y"
proof (induction xs arbitrary: i)
  case Nil
  then show ?case by simp
next
  case (Cons x xs)
  show ?case
  proof (cases i)
    case 0
    then show ?thesis by simp
  next
    case (Suc j)
    then have "j < length xs" using Cons.prems by simp
    from Cons.IH [OF this] show ?thesis using Suc by simp
  qed
qed

lemma read_step_continues: "read_step e f w = (pc, w') \<Longrightarrow> continues f pc \<and> worker_rank pc < 6"
  by (auto simp: read_step_def continues_def fails_with_def split: prod.splits sum.splits)

lemma post_step_continues: "post_step e c f content w = (pc, w') \<Longrightarrow> continues f pc \<and> worker_rank pc < 5"
  by (auto simp: post_step_def continues_def fails_with_def json_Marshal_def Let_def split: prod.splits sum.splits option.splits if_splits)

lemma write_step_continues: "write_step e f d w = (pc, w') \<Longrightarrow> continues f pc \<and> worker_rank pc < 4"
  by (auto simp: write_step_def continues_def fails_with_def Let_def split: prod.splits sum.splits option.splits if_splits)

lemma continues_account:
  "continues f pc \<Longrightarrow> mset (in_flight pc) + mset (map FilePath (unsent pc)) = {#f#}"
  by (auto simp: continues_def)

lemma continues_live: "continues f pc \<Longrightarrow> pc \<noteq> W_done \<and> pc \<noteq> W_recv \<and> live pc = 1"
  by (auto simp: continues_def)

lemma account_worker_update:
  assumes "i < length ws"
  shows "mset (concat (map in_flight (ws[i := pc])))
           + mset (map FilePath (concat (map unsent (ws[i := pc]))))
           + (mset (in_flight (ws ! i)) + mset (map FilePath (unsent (ws ! i))))
         = mset (concat (map in_flight ws)) + mset (map FilePath (concat (map unsent ws)))
           + (mset (in_flight pc) + mset (map FilePath (unsent pc)))"
proof -
  have a: "mset (concat (map in_flight (ws[i := pc]))) + mset (in_flight (ws ! i))
           = mset (concat (map in_flight ws)) + mset (in_flight pc)"
    using mset_concat_update [OF assms] .
  have "mset (concat (map (\<lambda>p. map FilePath (unsent p)) (ws[i := pc])))
            + mset (map FilePath (unsent (ws ! i)))
        = mset (concat (map (\<lambda>p. map FilePath (unsent p)) ws)) + mset (map FilePath (unsent pc))"
    using mset_concat_update [OF assms, of "\<lambda>p. map FilePath (unsent p)" pc] .
  then have b: "mset (map FilePath (concat (map unsent (ws[i := pc]))))
            + mset (map FilePath (unsent (ws ! i)))
        = mset (map FilePath (concat (map unsent ws))) + mset (map FilePath (unsent pc))"
    by (simp add: map_concat comp_def)
  have "mset (concat (map in_flight (ws[i := pc])))
           + mset (map FilePath (concat (map unsent (ws[i := pc]))))
           + (mset (in_flight (ws ! i)) + mset (map FilePath (unsent (ws ! i))))
        = (mset (concat (map in_flight (ws[i := pc]))) + mset (in_flight (ws ! i)))
           + (mset (map FilePath (concat (map unsent (ws[i := pc]))))
              + mset (map FilePath (unsent (ws ! i))))"
    by (simp only: ac_simps)
  also have "\<dots> = (mset (concat (map in_flight ws)) + mset (in_flight pc))
           + (mset (map FilePath (concat (map unsent ws))) + mset (map FilePath (unsent pc)))"
    by (simp only: a b)
  also have "\<dots> = mset (concat (map in_flight ws)) + mset (map FilePath (concat (map unsent ws)))
           + (mset (in_flight pc) + mset (map FilePath (unsent pc)))"
    by (simp only: ac_simps)
  finally show ?thesis .
qed

lemma held_update:
  "i < length ws \<Longrightarrow>
   held (ws[i := pc]) + (mset (in_flight (ws ! i)) + mset (map FilePath (unsent (ws ! i))))
   = held ws + (mset (in_flight pc) + mset (map FilePath (unsent pc)))"
  unfolding held_def by (rule account_worker_update)

lemma accounted_held:
  "accounted files s =
     (mset (remaining files (pc_main s)) + mset (jobs s) + held (workers s)
      + mset (map FilePath (results s)) + mset (map FilePath (allResults s)) = mset files)"
  by (simp add: accounted_def outcomes_def held_def ac_simps)

lemma live_zero: "live pc = 0 \<Longrightarrow> pc = W_done"
  by (cases pc) simp_all

lemma live_zero_done: "sum_list (map live ws) = 0 \<Longrightarrow> pc \<in> set ws \<Longrightarrow> pc = W_done"
  by (induction ws) (auto dest: live_zero)

lemma live_pos: "pc \<noteq> W_done \<Longrightarrow> live pc = 1"
  by (cases pc) auto

lemma worker_update_inv:
  assumes inv: "pool_inv config files s"
    and i: "i < length (workers s)"
    and live_i: "workers s ! i \<noteq> W_done"
    and s': "s' = s\<lparr>jobs := js, results := rs, wg := w, workers := (workers s)[i := pc'], pworld := wld\<rparr>"
    and acc: "mset js + (mset (in_flight pc') + mset (map FilePath (unsent pc'))) + mset (map FilePath rs)
              = mset (jobs s) + (mset (in_flight (workers s ! i)) + mset (map FilePath (unsent (workers s ! i))))
                + mset (map FilePath (results s))"
    and w: "w + 1 = wg s + int (live pc')"
    and jobs_mono: "jobs s = [] \<longrightarrow> js = []"
    and fin: "pc' = W_done \<longrightarrow> jobs_closed s \<and> js = []"
  shows "pool_inv config files s'"
proof -
  let ?ws = "workers s"
  let ?o = "mset (in_flight (?ws ! i)) + mset (map FilePath (unsent (?ws ! i)))"
  let ?n = "mset (in_flight pc') + mset (map FilePath (unsent pc'))"
  let ?R = "mset (remaining files (pc_main s))"
  let ?A = "mset (map FilePath (allResults s))"
  have mem: "?ws ! i \<in> set ?ws" using i by simp
  have nc: "closer s \<noteq> C_close \<and> closer s \<noteq> C_done"
    using inv mem live_i unfolding pool_inv_def by blast
  then have nrc: "\<not> results_closed s" using inv unfolding pool_inv_def by simp
  then have nret: "pc_main s \<noteq> M_returned" using inv unfolding pool_inv_def by blast
  have h: "held (?ws[i := pc']) + ?o = held ?ws + ?n"
    using held_update [OF i] .
  have a0: "?R + mset (jobs s) + held ?ws + mset (map FilePath (results s)) + ?A = mset files"
    using inv unfolding pool_inv_def accounted_held by simp
  have "(?R + mset js + held (?ws[i := pc']) + mset (map FilePath rs) + ?A) + (?o + ?n)
        = ?R + (mset js + ?n + mset (map FilePath rs)) + (held (?ws[i := pc']) + ?o) + ?A"
    by (simp only: ac_simps)
  also have "\<dots> = ?R + (mset (jobs s) + ?o + mset (map FilePath (results s))) + (held ?ws + ?n) + ?A"
    by (simp only: acc h)
  also have "\<dots> = (?R + mset (jobs s) + held ?ws + mset (map FilePath (results s)) + ?A) + (?o + ?n)"
    by (simp only: ac_simps)
  finally have "(?R + mset js + held (?ws[i := pc']) + mset (map FilePath rs) + ?A) + (?o + ?n)
        = (?R + mset (jobs s) + held ?ws + mset (map FilePath (results s)) + ?A) + (?o + ?n)" .
  then have "?R + mset js + held (?ws[i := pc']) + mset (map FilePath rs) + ?A
        = ?R + mset (jobs s) + held ?ws + mset (map FilePath (results s)) + ?A"
    by (rule add_right_imp_eq)
  then have "?R + mset js + held (?ws[i := pc']) + mset (map FilePath rs) + ?A = mset files"
    using a0 by (rule trans)
  then have c1: "accounted files s'"
    by (simp add: accounted_held s')
  have "sum_list (map live (?ws[i := pc'])) + live (?ws ! i) = sum_list (map live ?ws) + live pc'"
    using sum_list_update_nat [OF i] .
  moreover have "live (?ws ! i) = 1" using live_i by (rule live_pos)
  moreover have "wg s = int (sum_list (map live ?ws))" using inv unfolding pool_inv_def by simp
  ultimately have c2: "wg s' = int (sum_list (map live (workers s')))"
    using w by (simp add: s')
  have c8: "W_done \<in> set (workers s') \<longrightarrow> jobs_closed s' \<and> jobs s' = []"
  proof
    assume "W_done \<in> set (workers s')"
    then have "W_done \<in> insert pc' (set ?ws)"
      using set_update_subset_insert [of ?ws i pc'] by (auto simp: s')
    then have "jobs_closed s \<and> js = []"
      using fin jobs_mono inv unfolding pool_inv_def by auto
    then show "jobs_closed s' \<and> jobs s' = []" by (simp add: s')
  qed
  show ?thesis
    unfolding pool_inv_def
    using c1 c2 c8 nc nrc nret inv
    by (simp add: s' pool_inv_def)
qed

lemma worker_step_inv:
  assumes inv: "pool_inv config files s"
    and st: "worker_step e config files i s = Steps s'"
  shows "pool_inv config files s'"
proof -
  have i: "i < length (workers s)"
    using st by (auto simp: worker_step_def split: if_splits)
  show ?thesis
  proof (cases "workers s ! i")
    case W_recv
    show ?thesis
    proof (cases "jobs s")
      case Nil
      then have cl: "jobs_closed s" and s': "s' = s\<lparr>wg := wg s - 1, workers := (workers s)[i := W_done]\<rparr>"
        using st i W_recv by (auto simp: worker_step_def split: if_splits)
      have "s' = s\<lparr>jobs := jobs s, results := results s, wg := wg s - 1,
                    workers := (workers s)[i := W_done], pworld := pworld s\<rparr>"
        using s' by simp
      from worker_update_inv [OF inv i _ this] show ?thesis
        using W_recv Nil cl by simp
    next
      case (Cons f rest)
      then have "s' = s\<lparr>jobs := rest, workers := (workers s)[i := W_read f]\<rparr>"
        using st i W_recv by (auto simp: worker_step_def)
      then have "s' = s\<lparr>jobs := rest, results := results s, wg := wg s,
                    workers := (workers s)[i := W_read f], pworld := pworld s\<rparr>"
        by simp
      from worker_update_inv [OF inv i _ this] show ?thesis
        using W_recv Cons by simp
    qed
  next
    case (W_read f)
    obtain pc w where r: "read_step e f (pworld s) = (pc, w)" by (cases "read_step e f (pworld s)")
    then have "s' = s\<lparr>pworld := w, workers := (workers s)[i := pc]\<rparr>"
      using st i W_read by (auto simp: worker_step_def)
    then have s': "s' = s\<lparr>jobs := jobs s, results := results s, wg := wg s,
                    workers := (workers s)[i := pc], pworld := w\<rparr>"
      by simp
    have c: "continues f pc" using read_step_continues [OF r] by simp
    from worker_update_inv [OF inv i _ s'] show ?thesis
      using W_read continues_account [OF c] continues_live [OF c] by simp
  next
    case (W_post f content)
    obtain pc w where r: "post_step e config f content (pworld s) = (pc, w)"
      by (cases "post_step e config f content (pworld s)")
    then have "s' = s\<lparr>pworld := w, workers := (workers s)[i := pc]\<rparr>"
      using st i W_post by (auto simp: worker_step_def)
    then have s': "s' = s\<lparr>jobs := jobs s, results := results s, wg := wg s,
                    workers := (workers s)[i := pc], pworld := w\<rparr>"
      by simp
    have c: "continues f pc" using post_step_continues [OF r] by simp
    from worker_update_inv [OF inv i _ s'] show ?thesis
      using W_post continues_account [OF c] continues_live [OF c] by simp
  next
    case (W_write f d)
    obtain pc w where r: "write_step e f d (pworld s) = (pc, w)"
      by (cases "write_step e f d (pworld s)")
    then have "s' = s\<lparr>pworld := w, workers := (workers s)[i := pc]\<rparr>"
      using st i W_write by (auto simp: worker_step_def)
    then have s': "s' = s\<lparr>jobs := jobs s, results := results s, wg := wg s,
                    workers := (workers s)[i := pc], pworld := w\<rparr>"
      by simp
    have c: "continues f pc" using write_step_continues [OF r] by simp
    from worker_update_inv [OF inv i _ s'] show ?thesis
      using W_write continues_account [OF c] continues_live [OF c] by simp
  next
    case (W_send r)
    then have "s' = s\<lparr>results := results s @ [r], workers := (workers s)[i := W_recv]\<rparr>"
      using st i by (auto simp: worker_step_def split: if_splits)
    then have s': "s' = s\<lparr>jobs := jobs s, results := results s @ [r], wg := wg s,
                    workers := (workers s)[i := W_recv], pworld := pworld s\<rparr>"
      by simp
    from worker_update_inv [OF inv i _ s'] show ?thesis
      using W_send by simp
  next
    case W_done
    then show ?thesis using st i by (simp add: worker_step_def)
  qed
qed

lemma held_append_recv [simp]: "held (ws @ [W_recv]) = held ws"
  by (simp add: held_def)

lemma main_step_inv:
  assumes inv: "pool_inv config files s"
    and st: "main_step config files s = Steps s'"
  shows "pool_inv config files s'"
proof (cases "pc_main s")
  case (M_spawn i)
  show ?thesis
  proof (cases "i < numWorkers config files")
    case True
    then have "s' = s\<lparr>wg := wg s + 1, workers := workers s @ [W_recv], pc_main := M_spawn (i + 1)\<rparr>"
      using st M_spawn by (simp add: main_step_def)
    then show ?thesis
      using inv M_spawn True by (auto simp: pool_inv_def accounted_held)
  next
    case False
    then have "s' = s\<lparr>pc_main := M_send files\<rparr>"
      using st M_spawn by (simp add: main_step_def)
    then show ?thesis
      using inv M_spawn False by (auto simp: pool_inv_def accounted_held)
  qed
next
  case (M_send rest)
  show ?thesis
  proof (cases rest)
    case Nil
    then have "s' = s\<lparr>pc_main := M_close\<rparr>"
      using st M_send by (simp add: main_step_def)
    then show ?thesis
      using inv M_send Nil by (auto simp: pool_inv_def accounted_held)
  next
    case (Cons f more)
    then have "s' = s\<lparr>jobs := jobs s @ [f], pc_main := M_send more\<rparr>"
      using st M_send by (auto simp: main_step_def split: if_splits)
    then show ?thesis
      using inv M_send Cons by (auto simp: pool_inv_def accounted_held)
  qed
next
  case M_close
  then have "s' = s\<lparr>jobs_closed := True, pc_main := M_closer\<rparr>"
    using st by (auto simp: main_step_def split: if_splits)
  then show ?thesis
    using inv M_close by (auto simp: pool_inv_def accounted_held)
next
  case M_closer
  then have "s' = s\<lparr>closer := C_wait, pc_main := M_collect\<rparr>"
    using st by (auto simp: main_step_def split: if_splits)
  then show ?thesis
    using inv M_closer by (auto simp: pool_inv_def accounted_held)
next
  case M_collect
  show ?thesis
  proof (cases "results s")
    case Nil
    then have "s' = s\<lparr>pc_main := M_returned\<rparr>" and "results_closed s"
      using st M_collect by (auto simp: main_step_def split: if_splits)
    then show ?thesis
      using inv M_collect Nil by (auto simp: pool_inv_def accounted_held)
  next
    case (Cons r rest)
    then have "s' = s\<lparr>allResults := allResults s @ [r], results := rest\<rparr>"
      using st M_collect by (auto simp: main_step_def)
    then show ?thesis
      using inv M_collect Cons by (auto simp: pool_inv_def accounted_held)
  qed
next
  case M_returned
  then show ?thesis using st by (simp add: main_step_def)
qed

lemma closer_step_inv:
  assumes inv: "pool_inv config files s"
    and st: "closer_step s = Steps s'"
  shows "pool_inv config files s'"
proof (cases "closer s")
  case C_none
  then show ?thesis using st by (simp add: closer_step_def)
next
  case C_wait
  then have s': "s' = s\<lparr>closer := C_close\<rparr>" and z: "wg s = 0"
    using st by (auto simp: closer_step_def split: if_splits)
  have "sum_list (map live (workers s)) = 0"
    using inv z by (simp add: pool_inv_def)
  then have "\<forall>pc \<in> set (workers s). pc = W_done"
    using live_zero_done by blast
  then show ?thesis
    using inv C_wait s' by (auto simp: pool_inv_def accounted_held)
next
  case C_close
  then have s': "s' = s\<lparr>results_closed := True, closer := C_done\<rparr>"
    using st by (auto simp: closer_step_def split: if_splits)
  then show ?thesis
    using inv C_close by (auto simp: pool_inv_def accounted_held)
next
  case C_done
  then show ?thesis using st by (simp add: closer_step_def)
qed

lemma step_inv:
  "pool_inv config files s \<Longrightarrow> step e config files t s = Steps s' \<Longrightarrow> pool_inv config files s'"
  by (cases t) (auto intro: main_step_inv closer_step_inv worker_step_inv)

lemma init_inv: "pool_inv config files (init_pool w)"
  by (simp add: pool_inv_def init_pool_def accounted_held held_def)

lemma exec_inv:
  "pool_inv config files s \<Longrightarrow> exec e config files sched s = Some s' \<Longrightarrow> pool_inv config files s'"
proof (induction sched arbitrary: s)
  case Nil
  then show ?case by simp
next
  case (Cons t sched)
  then show ?case
    by (auto split: outcome.splits dest: step_inv)
qed

lemma held_all_done: "\<forall>pc \<in> set ws. pc = W_done \<Longrightarrow> held ws = {#}"
  by (induction ws) (auto simp: held_def)

lemma accounted_size:
  assumes "pool_inv config files s"
  shows "length (remaining files (pc_main s)) + length (jobs s) + size (held (workers s))
         + length (results s) + length (allResults s) = length files"
proof -
  have "mset (remaining files (pc_main s)) + mset (jobs s) + held (workers s)
      + mset (map FilePath (results s)) + mset (map FilePath (allResults s)) = mset files"
    using assms by (simp add: pool_inv_def accounted_held)
  then have "size (mset (remaining files (pc_main s)) + mset (jobs s) + held (workers s)
      + mset (map FilePath (results s)) + mset (map FilePath (allResults s))) = size (mset files)"
    by (rule arg_cong)
  then show ?thesis by simp
qed

lemma held_send_pos:
  assumes "i < length ws" and "ws ! i = W_send r"
  shows "size (held ws) \<ge> 1"
proof -
  have "held (ws[i := W_recv]) + (mset (in_flight (ws ! i)) + mset (map FilePath (unsent (ws ! i))))
        = held ws + (mset (in_flight W_recv) + mset (map FilePath (unsent W_recv)))"
    using held_update [OF assms(1)] .
  then have "size (held (ws[i := W_recv]) + {#FilePath r#}) = size (held ws)"
    using assms(2) by simp
  then show ?thesis by simp
qed

lemma returned_complete:
  assumes inv: "pool_inv config files s"
    and ret: "pc_main s = M_returned"
    and valid: "1 \<le> Workers config"
  shows "mset (map FilePath (allResults s)) = mset files
     \<and> length (allResults s) = length files
     \<and> list_all (\<lambda>pc. pc = W_done) (workers s)
     \<and> jobs s = [] \<and> results s = [] \<and> results_closed s"
proof -
  have rc: "results_closed s" and r0: "results s = []"
    using inv ret by (auto simp: pool_inv_def)
  then have "closer s = C_done" using inv by (simp add: pool_inv_def)
  then have alldone: "\<forall>pc \<in> set (workers s). pc = W_done"
    using inv by (simp add: pool_inv_def)
  then have h0: "held (workers s) = {#}" by (rule held_all_done)
  have j0: "jobs s = []"
  proof (cases "files = []")
    case True
    then show ?thesis using accounted_size [OF inv] by simp
  next
    case False
    then have "numWorkers config files \<ge> 1"
      using valid by (cases files) (auto simp: numWorkers_def)
    then have "int (length (workers s)) \<ge> 1"
      using inv ret by (simp add: pool_inv_def)
    then obtain pc where "pc \<in> set (workers s)" by (cases "workers s") auto
    then have "W_done \<in> set (workers s)" using alldone by auto
    then show ?thesis using inv by (simp add: pool_inv_def)
  qed
  have "mset (map FilePath (allResults s)) = mset files"
    using inv ret h0 j0 r0 by (simp add: pool_inv_def accounted_held)
  moreover have "length (allResults s) = length files"
    using accounted_size [OF inv] ret h0 j0 r0 by simp
  ultimately show ?thesis
    using alldone j0 r0 rc by (simp add: list_all_iff)
qed

lemma no_panic:
  assumes inv: "pool_inv config files s"
  shows "step e config files t s \<noteq> Panics"
proof (cases t)
  case Main
  then show ?thesis
    using inv by (auto simp: main_step_def pool_inv_def split: main_pc.splits list.splits)
next
  case Closer
  then show ?thesis
    using inv by (auto simp: closer_step_def pool_inv_def split: closer_pc.splits)
next
  case (Worker i)
  show ?thesis
  proof (cases "i < length (workers s)")
    case False
    then show ?thesis using Worker by (simp add: worker_step_def)
  next
    case True
    then have mem: "workers s ! i \<in> set (workers s)" by simp
    have sum: "sum_list (map live ((workers s)[i := W_done])) + live (workers s ! i)
             = sum_list (map live (workers s)) + live W_done"
      using sum_list_update_nat [OF True] .
    show ?thesis
    proof (cases "workers s ! i")
      case W_recv
      then have "sum_list (map live (workers s)) \<ge> 1" using sum by simp
      then have "wg s \<ge> 1" using inv by (simp add: pool_inv_def)
      then show ?thesis
        using Worker True W_recv by (simp add: worker_step_def split: list.splits)
    next
      case (W_send r)
      then have "closer s \<noteq> C_done" using inv mem unfolding pool_inv_def by auto
      then have "\<not> results_closed s" using inv by (simp add: pool_inv_def)
      then show ?thesis
        using Worker True W_send by (simp add: worker_step_def)
    qed (use Worker True in \<open>auto simp: worker_step_def split: prod.splits\<close>)
  qed
qed

lemma worker_enabled:
  assumes inv: "pool_inv config files s"
    and i: "i < length (workers s)"
    and live_i: "workers s ! i \<noteq> W_done"
    and cl: "jobs_closed s"
  shows "\<exists>s'. worker_step e config files i s = Steps s'"
proof (cases "workers s ! i")
  case W_recv
  have "step e config files (Worker i) s \<noteq> Panics" using inv by (rule no_panic)
  then show ?thesis
    using i W_recv cl by (auto simp: worker_step_def split: list.splits)
next
  case (W_send r)
  have "step e config files (Worker i) s \<noteq> Panics" using inv by (rule no_panic)
  moreover have "length (results s) < length files"
    using accounted_size [OF inv] held_send_pos [OF i W_send] by simp
  ultimately show ?thesis
    using i W_send by (auto simp: worker_step_def)
qed (use i live_i in \<open>auto simp: worker_step_def split: prod.splits\<close>)

lemma progress:
  assumes inv: "pool_inv config files s"
    and nret: "pc_main s \<noteq> M_returned"
  shows "\<exists>t s'. step e config files t s = Steps s'"
proof (cases "pc_main s")
  case (M_spawn i)
  then have "\<exists>s'. step e config files Main s = Steps s'" by (simp add: main_step_def)
  then show ?thesis by blast
next
  case (M_send rest)
  have np: "step e config files Main s \<noteq> Panics" using inv by (rule no_panic)
  have "\<exists>s'. step e config files Main s = Steps s'"
  proof (cases rest)
    case Nil
    then show ?thesis using M_send by (simp add: main_step_def)
  next
    case (Cons f more)
    then have "length (jobs s) < length files"
      using accounted_size [OF inv] M_send by simp
    then show ?thesis using M_send Cons np by (auto simp: main_step_def)
  qed
  then show ?thesis by blast
next
  case M_close
  have "step e config files Main s \<noteq> Panics" using inv by (rule no_panic)
  then have "\<exists>s'. step e config files Main s = Steps s'"
    using M_close by (auto simp: main_step_def split: if_splits)
  then show ?thesis by blast
next
  case M_closer
  then have "\<exists>s'. step e config files Main s = Steps s'" by (simp add: main_step_def)
  then show ?thesis by blast
next
  case M_collect
  show ?thesis
  proof (cases "results s \<noteq> [] \<or> results_closed s")
    case True
    then have "\<exists>s'. step e config files Main s = Steps s'"
      using M_collect by (auto simp: main_step_def split: list.splits)
    then show ?thesis by blast
  next
    case False
    then have nd: "closer s \<noteq> C_done" and nn: "closer s \<noteq> C_none"
      using inv M_collect by (auto simp: pool_inv_def)
    have cl: "jobs_closed s" using inv M_collect by (simp add: pool_inv_def)
    have npc: "step e config files Closer s \<noteq> Panics" using inv by (rule no_panic)
    show ?thesis
    proof (cases "closer s = C_close \<or> wg s = 0")
      case True
      then have "\<exists>s'. step e config files Closer s = Steps s'"
        using nd nn npc by (cases "closer s") (auto simp: closer_step_def split: if_splits)
      then show ?thesis by blast
    next
      case False
      then have "sum_list (map live (workers s)) \<noteq> 0"
        using inv by (simp add: pool_inv_def)
      then obtain pc where "pc \<in> set (workers s)" and "live pc \<noteq> 0"
        by (auto simp: sum_list_eq_0_iff)
      then have "pc \<noteq> W_done" by auto
      then obtain i where i: "i < length (workers s)" and "workers s ! i \<noteq> W_done"
        using \<open>pc \<in> set (workers s)\<close> by (auto simp: in_set_conv_nth)
      then have "\<exists>s'. step e config files (Worker i) s = Steps s'"
        using worker_enabled [OF inv i _ cl] by simp
      then show ?thesis by blast
    qed
  qed
next
  case M_returned
  then show ?thesis using nret by simp
qed

lemma rank_worker_update:
  assumes i: "i < length (workers s)"
    and s': "s' = s\<lparr>jobs := js, results := rs, wg := w, workers := (workers s)[i := pc'], pworld := wld\<rparr>"
    and less: "worker_rank pc' + 7 * length js + length rs
               < worker_rank (workers s ! i) + 7 * length (jobs s) + length (results s)"
  shows "rank config files s' < rank config files s"
proof -
  have "sum_list (map worker_rank ((workers s)[i := pc'])) + worker_rank (workers s ! i)
        = sum_list (map worker_rank (workers s)) + worker_rank pc'"
    using sum_list_update_nat [OF i] .
  then show ?thesis using less by (simp add: rank_def s')
qed

lemma worker_step_rank:
  assumes st: "worker_step e config files i s = Steps s'"
  shows "rank config files s' < rank config files s"
proof -
  have i: "i < length (workers s)"
    using st by (auto simp: worker_step_def split: if_splits)
  show ?thesis
  proof (cases "workers s ! i")
    case W_recv
    show ?thesis
    proof (cases "jobs s")
      case Nil
      then have "s' = s\<lparr>wg := wg s - 1, workers := (workers s)[i := W_done]\<rparr>"
        using st i W_recv by (auto simp: worker_step_def split: if_splits)
      then have "s' = s\<lparr>jobs := jobs s, results := results s, wg := wg s - 1,
                    workers := (workers s)[i := W_done], pworld := pworld s\<rparr>"
        by simp
      from rank_worker_update [OF i this] show ?thesis using W_recv by simp
    next
      case (Cons f rest)
      then have "s' = s\<lparr>jobs := rest, workers := (workers s)[i := W_read f]\<rparr>"
        using st i W_recv by (auto simp: worker_step_def)
      then have "s' = s\<lparr>jobs := rest, results := results s, wg := wg s,
                    workers := (workers s)[i := W_read f], pworld := pworld s\<rparr>"
        by simp
      from rank_worker_update [OF i this] show ?thesis using W_recv Cons by simp
    qed
  next
    case (W_read f)
    obtain pc w where r: "read_step e f (pworld s) = (pc, w)" by (cases "read_step e f (pworld s)")
    then have "s' = s\<lparr>pworld := w, workers := (workers s)[i := pc]\<rparr>"
      using st i W_read by (auto simp: worker_step_def)
    then have s': "s' = s\<lparr>jobs := jobs s, results := results s, wg := wg s,
                    workers := (workers s)[i := pc], pworld := w\<rparr>"
      by simp
    from rank_worker_update [OF i s'] show ?thesis
      using W_read read_step_continues [OF r] by simp
  next
    case (W_post f content)
    obtain pc w where r: "post_step e config f content (pworld s) = (pc, w)"
      by (cases "post_step e config f content (pworld s)")
    then have "s' = s\<lparr>pworld := w, workers := (workers s)[i := pc]\<rparr>"
      using st i W_post by (auto simp: worker_step_def)
    then have s': "s' = s\<lparr>jobs := jobs s, results := results s, wg := wg s,
                    workers := (workers s)[i := pc], pworld := w\<rparr>"
      by simp
    from rank_worker_update [OF i s'] show ?thesis
      using W_post post_step_continues [OF r] by simp
  next
    case (W_write f d)
    obtain pc w where r: "write_step e f d (pworld s) = (pc, w)"
      by (cases "write_step e f d (pworld s)")
    then have "s' = s\<lparr>pworld := w, workers := (workers s)[i := pc]\<rparr>"
      using st i W_write by (auto simp: worker_step_def)
    then have s': "s' = s\<lparr>jobs := jobs s, results := results s, wg := wg s,
                    workers := (workers s)[i := pc], pworld := w\<rparr>"
      by simp
    from rank_worker_update [OF i s'] show ?thesis
      using W_write write_step_continues [OF r] by simp
  next
    case (W_send r)
    then have "s' = s\<lparr>results := results s @ [r], workers := (workers s)[i := W_recv]\<rparr>"
      using st i by (auto simp: worker_step_def split: if_splits)
    then have s': "s' = s\<lparr>jobs := jobs s, results := results s @ [r], wg := wg s,
                    workers := (workers s)[i := W_recv], pworld := pworld s\<rparr>"
      by simp
    from rank_worker_update [OF i s'] show ?thesis using W_send by simp
  next
    case W_done
    then show ?thesis using st i by (simp add: worker_step_def)
  qed
qed

lemma main_step_rank:
  assumes st: "main_step config files s = Steps s'"
  shows "rank config files s' < rank config files s"
  using st
  by (auto simp: main_step_def rank_def split: main_pc.splits list.splits if_splits)

lemma closer_step_rank:
  assumes st: "closer_step s = Steps s'"
  shows "rank config files s' < rank config files s"
  using st
  by (auto simp: closer_step_def rank_def split: closer_pc.splits if_splits)

lemma step_rank:
  "step e config files t s = Steps s' \<Longrightarrow> rank config files s' < rank config files s"
  by (cases t) (auto intro: main_step_rank closer_step_rank worker_step_rank)

lemma exec_append:
  "exec e config files (xs @ ys) s =
     (case exec e config files xs s of None \<Rightarrow> None | Some s' \<Rightarrow> exec e config files ys s')"
  by (induction xs arbitrary: s) (auto split: outcome.splits)

lemma completes:
  assumes "pool_inv config files s"
  shows "\<exists>more s'. exec e config files more s = Some s' \<and> pc_main s' = M_returned"
  using assms
proof (induction "rank config files s" arbitrary: s rule: less_induct)
  case less
  show ?case
  proof (cases "pc_main s = M_returned")
    case True
    then have "exec e config files [] s = Some s \<and> pc_main s = M_returned" by simp
    then show ?thesis by blast
  next
    case False
    then obtain t s1 where st: "step e config files t s = Steps s1"
      using progress [OF less.prems] by blast
    have "rank config files s1 < rank config files s" using st by (rule step_rank)
    moreover have "pool_inv config files s1" using less.prems st by (rule step_inv)
    ultimately obtain more s' where "exec e config files more s1 = Some s'" and "pc_main s' = M_returned"
      using less.hyps by blast
    then have "exec e config files (t # more) s = Some s' \<and> pc_main s' = M_returned"
      using st by simp
    then show ?thesis by blast
  qed
qed

text \<open>
  C1. With a valid configuration, of which only that it has at least one worker is
  used, in every state that a run of \<open>processFiles\<close> reaches:
  if the calling goroutine has returned, the list it returns has exactly as many results
  as there are input paths, the paths of the results are the input paths with their
  multiplicities (none dropped, none duplicated), every worker has finished, and both
  channels are empty, \<open>results\<close> closed; if it has not returned, some goroutine can take a
  step, so the run is never stuck; no goroutine panics; every step lowers the rank, so no
  run goes on for ever; and the run can be continued to one where the calling goroutine
  has returned.
\<close>

theorem processFiles_one_result_per_job:
  assumes valid: "1 \<le> Workers config"
    and run: "exec e config files sched (init_pool w) = Some s"
  shows "(pc_main s = M_returned \<longrightarrow>
            length (allResults s) = length files
            \<and> mset (map FilePath (allResults s)) = mset files
            \<and> list_all (\<lambda>pc. pc = W_done) (workers s)
            \<and> jobs s = [] \<and> results s = [] \<and> results_closed s)
     \<and> (pc_main s \<noteq> M_returned \<longrightarrow> (\<exists>t s'. step e config files t s = Steps s'))
     \<and> (\<forall>t. step e config files t s \<noteq> Panics)
     \<and> (\<forall>t s'. step e config files t s = Steps s' \<longrightarrow> rank config files s' < rank config files s)
     \<and> (\<exists>more s'. exec e config files more s = Some s' \<and> pc_main s' = M_returned)"
proof -
  have inv: "pool_inv config files s"
    using init_inv run by (rule exec_inv)
  show ?thesis
    using returned_complete [OF inv _ valid] progress [OF inv] no_panic [OF inv]
      step_rank completes [OF inv]
    by blast
qed

lemmas step_defs = main_step_def closer_step_def worker_step_def read_step_def post_step_def
  write_step_def fails_with_def init_pool_def numWorkers_def

lemmas eval_defs = step_defs psf_defs scenario_defs json_members_def json_object_def path_defs

lemma run_sched2:
  "\<exists>s. exec (scenario_env always_ok) scenario_config [''a.txt'', ''b.txt''] sched2
         (init_pool scenario_world) = Some s
       \<and> pc_main s = M_returned
       \<and> allResults s = [\<lparr>FilePath = ''b.txt'', OutputPath = ''b.mp3'', Error = None\<rparr>,
                          \<lparr>FilePath = ''a.txt'', OutputPath = ''a.mp3'', Error = None\<rparr>]"
  by (simp add: sched2_def eval_defs)

theorem processFiles_one_result_per_job_witness:
  "1 \<le> Workers scenario_config
   \<and> processed (scenario_env always_ok) scenario_config sched2 scenario_world [''a.txt'', ''b.txt'']
       = [\<lparr>FilePath = ''b.txt'', OutputPath = ''b.mp3'', Error = None\<rparr>,
          \<lparr>FilePath = ''a.txt'', OutputPath = ''a.mp3'', Error = None\<rparr>]
   \<and> length (processed (scenario_env always_ok) scenario_config sched2 scenario_world
        [''a.txt'', ''b.txt'']) = length [''a.txt'', ''b.txt'']"
proof -
  have valid: "1 \<le> Workers scenario_config"
    by (simp add: scenario_config_def)
  obtain s where run: "exec (scenario_env always_ok) scenario_config [''a.txt'', ''b.txt''] sched2
         (init_pool scenario_world) = Some s"
    and ret: "pc_main s = M_returned"
    and rs: "allResults s = [\<lparr>FilePath = ''b.txt'', OutputPath = ''b.mp3'', Error = None\<rparr>,
                             \<lparr>FilePath = ''a.txt'', OutputPath = ''a.mp3'', Error = None\<rparr>]"
    using run_sched2 by blast
  have "length (allResults s) = length [''a.txt'', ''b.txt'']"
    using processFiles_one_result_per_job [OF valid run] ret by blast
  then show ?thesis
    using valid run ret rs by (simp add: processed_def processFiles_def)
qed

section \<open>The worker count and the outcome\<close>

lemma fs_read_step [simp]: "fs (snd (read_step e f w)) = fs w"
  by (simp add: read_step_def ReadFile_def Let_def split: option.splits)

lemma fs_post_step [simp]: "fs (snd (post_step e config f c w)) = fs w"
  by (simp add: post_step_def json_Marshal_def client_Post_def ReadAll_def Let_def
      split: sum.splits option.splits prod.splits)




lemma write_step_indep: "fst (write_step e f d w) = fst (write_step e f d w')"
  by (simp add: write_step_def WriteFile_def Let_def split: option.splits write_fault.splits)


















lemma set_unsent_update:
  assumes i: "i < length ws" and e: "unsent (ws ! i) = []"
  shows "set (concat (map unsent (ws[i := pc]))) = set (concat (map unsent ws)) \<union> set (unsent pc)"
proof -
  have "mset (concat (map unsent (ws[i := pc]))) + mset (unsent (ws ! i))
        = mset (concat (map unsent ws)) + mset (unsent pc)"
    using mset_concat_update [OF i] .
  then have "set_mset (mset (concat (map unsent (ws[i := pc]))))
        = set_mset (mset (concat (map unsent ws)) + mset (unsent pc))"
    using e by simp
  then show ?thesis by simp
qed

lemma set_unsent_send:
  assumes i: "i < length ws" and e: "ws ! i = W_send r"
  shows "insert r (set (concat (map unsent (ws[i := W_recv])))) = set (concat (map unsent ws))"
proof -
  have "mset (concat (map unsent (ws[i := W_recv]))) + mset (unsent (ws ! i))
        = mset (concat (map unsent ws)) + mset (unsent W_recv)"
    using mset_concat_update [OF i] .
  then have "set_mset (mset (concat (map unsent (ws[i := W_recv]))) + {#r#})
        = set_mset (mset (concat (map unsent ws)))"
    using e by simp
  then show ?thesis by simp
qed






lemma outcomes_update_same:
  assumes "i < length (workers s)" and "unsent (workers s ! i) = []" and "unsent pc = []"
    and "workers s' = (workers s)[i := pc]" and "results s' = results s"
    and "allResults s' = allResults s"
  shows "set (outcomes s') = set (outcomes s)"
  using assms set_unsent_update [of i "workers s" pc] by (simp add: outcomes_def)










lemma worker_job_Workers [simp]:
  "worker_job e (config\<lparr>Workers := k\<rparr>) f w = worker_job e config f w"
  by (simp add: worker_job_def processSingleFile_def Let_def
      split: prod.splits sum.splits option.splits)

lemma job_result_Workers [simp]:
  "job_result e (config\<lparr>Workers := k\<rparr>) w = job_result e config w"
  by (rule ext) (simp add: job_result_def)

lemma job_file_Workers [simp]:
  "job_file e (config\<lparr>Workers := k\<rparr>) w = job_file e config w"
  by (rule ext) (simp add: job_file_def)







section \<open>The exit status\<close>

lemma main_exit_after_scan:
  "main_exit config scan_path_exists (Inr files) process
     = (if ScanPath config = [] \<or> \<not> scan_path_exists \<or> Workers config < 1
           \<or> Timeout config < 1000000000 then 1 else 0)"
  by (simp add: main_exit_def run_def Let_def)

text \<open>
  C2. The exit status should tell complete failure and partial failure from success.
  Evaluated on three runs of two jobs: against the endpoint that always answers 500 both
  results carry the server error; with one file missing one job fails and one succeeds;
  against the endpoint that always answers 200 both succeed. In all three \<open>main\<close> exits
  with 0.
\<close>

theorem exit_status_after_failures:
  "processed (scenario_env always_500) scenario_config sched2_failing scenario_world
       [''a.txt'', ''b.txt'']
     = [\<lparr>FilePath = ''b.txt'', OutputPath = [],
         Error = Some (ServerReturnedStatus 500 ''overloaded'')\<rparr>,
        \<lparr>FilePath = ''a.txt'', OutputPath = [],
         Error = Some (ServerReturnedStatus 500 ''overloaded'')\<rparr>]
   \<and> main_exit scenario_config True (Inr [''a.txt'', ''b.txt''])
        (processed (scenario_env always_500) scenario_config sched2_failing scenario_world) = 0
   \<and> processed (scenario_env always_ok) scenario_config sched2_partial scenario_world
       [''a.txt'', ''missing.txt'']
     = [\<lparr>FilePath = ''missing.txt'', OutputPath = [],
         Error = Some (FailedToReadFile ErrNotExist)\<rparr>,
        \<lparr>FilePath = ''a.txt'', OutputPath = ''a.mp3'', Error = None\<rparr>]
   \<and> main_exit scenario_config True (Inr [''a.txt'', ''missing.txt''])
        (processed (scenario_env always_ok) scenario_config sched2_partial scenario_world) = 0
   \<and> processed (scenario_env always_ok) scenario_config sched2 scenario_world
       [''a.txt'', ''b.txt'']
     = [\<lparr>FilePath = ''b.txt'', OutputPath = ''b.mp3'', Error = None\<rparr>,
        \<lparr>FilePath = ''a.txt'', OutputPath = ''a.mp3'', Error = None\<rparr>]
   \<and> main_exit scenario_config True (Inr [''a.txt'', ''b.txt''])
        (processed (scenario_env always_ok) scenario_config sched2 scenario_world) = 0"
proof -
  have "processed (scenario_env always_500) scenario_config sched2_failing scenario_world
       [''a.txt'', ''b.txt'']
     = [\<lparr>FilePath = ''b.txt'', OutputPath = [],
         Error = Some (ServerReturnedStatus 500 ''overloaded'')\<rparr>,
        \<lparr>FilePath = ''a.txt'', OutputPath = [],
         Error = Some (ServerReturnedStatus 500 ''overloaded'')\<rparr>]"
    by (simp add: processed_def processFiles_def sched2_failing_def eval_defs)
  moreover have "processed (scenario_env always_ok) scenario_config sched2_partial scenario_world
       [''a.txt'', ''missing.txt'']
     = [\<lparr>FilePath = ''missing.txt'', OutputPath = [],
         Error = Some (FailedToReadFile ErrNotExist)\<rparr>,
        \<lparr>FilePath = ''a.txt'', OutputPath = ''a.mp3'', Error = None\<rparr>]"
    by (simp add: processed_def processFiles_def sched2_partial_def eval_defs)
  moreover have "processed (scenario_env always_ok) scenario_config sched2 scenario_world
       [''a.txt'', ''b.txt'']
     = [\<lparr>FilePath = ''b.txt'', OutputPath = ''b.mp3'', Error = None\<rparr>,
        \<lparr>FilePath = ''a.txt'', OutputPath = ''a.mp3'', Error = None\<rparr>]"
    by (simp add: processed_def processFiles_def sched2_def eval_defs)
  ultimately show ?thesis
    by (simp add: main_exit_after_scan scenario_config_def)
qed

section \<open>The results of a run\<close>

lemma written_append: "written (xs @ ys) name = (written xs name \<or> written ys name)"
  by (induction xs name rule: written.induct) auto

lemma new_events_grow:
  assumes "trace w = trace w0 @ new_events w0 w" and "trace w' = trace w @ evs"
  shows "new_events w0 w' = new_events w0 w @ evs" and "trace w' = trace w0 @ new_events w0 w'"
proof -
  have "trace w' = trace w0 @ (new_events w0 w @ evs)" using assms by simp
  then show "new_events w0 w' = new_events w0 w @ evs" by (simp add: new_events_def)
  then show "trace w' = trace w0 @ new_events w0 w'" using assms by simp
qed

lemma result_ok_grow:
  assumes "result_ok e evs g r" and "\<And>p. g p \<noteq> None \<Longrightarrow> g' p \<noteq> None"
  shows "result_ok e (evs @ evs') g' r"
  using assms by (auto simp: result_ok_def written_append)

lemma res_step:
  assumes res: "res_inv e w0 s"
    and tr: "trace (pworld s') = trace (pworld s) @ evs"
    and nw: "\<not> written evs []"
    and keep: "\<And>p. fs (pworld s) p \<noteq> None \<Longrightarrow> fs (pworld s') p \<noteq> None"
    and o: "set (outcomes s') \<subseteq> set (outcomes s) \<union> set new"
    and new: "\<forall>r \<in> set new. result_ok e (new_events w0 (pworld s) @ evs) (fs (pworld s')) r"
  shows "res_inv e w0 s'"
proof -
  have t: "trace (pworld s) = trace w0 @ new_events w0 (pworld s)"
    using res by (simp add: res_inv_def)
  note g = new_events_grow [OF t tr]
  have "\<forall>r \<in> set (outcomes s'). result_ok e (new_events w0 (pworld s')) (fs (pworld s')) r"
  proof
    fix r assume "r \<in> set (outcomes s')"
    then consider "r \<in> set (outcomes s)" | "r \<in> set new" using o by blast
    then show "result_ok e (new_events w0 (pworld s')) (fs (pworld s')) r"
    proof cases
      case 1
      then have "result_ok e (new_events w0 (pworld s)) (fs (pworld s)) r"
        using res by (simp add: res_inv_def)
      then have "result_ok e (new_events w0 (pworld s) @ evs) (fs (pworld s')) r"
        using keep by (rule result_ok_grow)
      then show ?thesis by (simp only: g(1))
    next
      case 2
      then show ?thesis using new g(1) by simp
    qed
  qed
  moreover have "\<not> written (new_events w0 (pworld s')) []"
    using res nw g(1) by (simp add: res_inv_def written_append)
  ultimately show ?thesis using g(2) by (simp add: res_inv_def)
qed

lemma res_same:
  assumes res: "res_inv e w0 s"
    and w: "pworld s' = pworld s"
    and o: "set (outcomes s') = set (outcomes s)"
  shows "res_inv e w0 s'"
  using assms by (simp add: res_inv_def)

lemma read_step_res:
  assumes "read_step e f w = (pc, w')"
  shows "trace w' = trace w @ [EvReadFile f] \<and> fs w' = fs w
       \<and> (\<forall>r \<in> set (unsent pc). result_ok e evs g r)"
  using assms
  by (auto simp: read_step_def ReadFile_def Let_def fails_with_def result_ok_def
      split: option.splits)

lemma post_step_res:
  assumes "post_step e config f c w = (pc, w')"
  shows "(\<exists>url body. trace w' = trace w @ [EvPost url body]) \<and> fs w' = fs w
       \<and> (\<forall>r \<in> set (unsent pc). result_ok e evs g r)"
  using assms
  by (auto simp: post_step_def json_Marshal_def client_Post_def ReadAll_def Let_def
      fails_with_def result_ok_def split: sum.splits option.splits prod.splits if_splits)

lemma write_step_res:
  assumes "write_step e f d w = (pc, w')"
  shows "(\<exists>res. trace w' = trace w @ [EvWriteFile (getOutputPath (goos e) f) d res]
            \<and> (\<forall>r \<in> set (unsent pc).
                  result_ok e (evs @ [EvWriteFile (getOutputPath (goos e) f) d res]) (fs w') r))
       \<and> (\<forall>p. fs w p \<noteq> None \<longrightarrow> fs w' p \<noteq> None)"
  using assms
  by (auto simp: write_step_def WriteFile_def Let_def fails_with_def result_ok_def written_append
      split: option.splits write_fault.splits)

lemma outcomes_update_grow:
  assumes "i < length (workers s)" and "unsent (workers s ! i) = []"
    and "workers s' = (workers s)[i := pc]" and "results s' = results s"
    and "allResults s' = allResults s"
  shows "set (outcomes s') = set (outcomes s) \<union> set (unsent pc)"
  using assms set_unsent_update [of i "workers s" pc] by (auto simp: outcomes_def)

lemma worker_step_res:
  assumes res: "res_inv e w0 s"
    and st: "worker_step e config files i s = Steps s'"
  shows "res_inv e w0 s'"
proof -
  have i: "i < length (workers s)"
    using st by (auto simp: worker_step_def split: if_splits)
  show ?thesis
  proof (cases "workers s ! i")
    case W_recv
    show ?thesis
    proof (cases "jobs s")
      case Nil
      then have s': "s' = s\<lparr>wg := wg s - 1, workers := (workers s)[i := W_done]\<rparr>"
        using st i W_recv by (auto simp: worker_step_def split: if_splits)
      have "set (outcomes s') = set (outcomes s)"
        using i W_recv s' by (intro outcomes_update_same [of i s W_done]) simp_all
      then show ?thesis using res s' by (intro res_same [of e w0 s s']) simp_all
    next
      case (Cons f rest)
      then have s': "s' = s\<lparr>jobs := rest, workers := (workers s)[i := W_read f]\<rparr>"
        using st i W_recv by (auto simp: worker_step_def)
      have "set (outcomes s') = set (outcomes s)"
        using i W_recv s' by (intro outcomes_update_same [of i s "W_read f"]) simp_all
      then show ?thesis using res s' by (intro res_same [of e w0 s s']) simp_all
    qed
  next
    case (W_read f)
    obtain pc w where r: "read_step e f (pworld s) = (pc, w)"
      by (cases "read_step e f (pworld s)")
    then have s': "s' = s\<lparr>pworld := w, workers := (workers s)[i := pc]\<rparr>"
      using st i W_read by (auto simp: worker_step_def)
    have o: "set (outcomes s') = set (outcomes s) \<union> set (unsent pc)"
      using i W_read s' by (intro outcomes_update_grow [of i s]) simp_all
    note f = read_step_res [OF r, of "new_events w0 (pworld s) @ [EvReadFile f]" "fs (pworld s)"]
    show ?thesis
      using res f o s'
      by (intro res_step [of e w0 s s' "[EvReadFile f]" "unsent pc"]) simp_all
  next
    case (W_post f c)
    obtain pc w where r: "post_step e config f c (pworld s) = (pc, w)"
      by (cases "post_step e config f c (pworld s)")
    then have s': "s' = s\<lparr>pworld := w, workers := (workers s)[i := pc]\<rparr>"
      using st i W_post by (auto simp: worker_step_def)
    have o: "set (outcomes s') = set (outcomes s) \<union> set (unsent pc)"
      using i W_post s' by (intro outcomes_update_grow [of i s]) simp_all
    obtain url body where tr: "trace w = trace (pworld s) @ [EvPost url body]"
      using post_step_res [OF r] by blast
    note f = post_step_res [OF r, of "new_events w0 (pworld s) @ [EvPost url body]" "fs (pworld s)"]
    show ?thesis
      using res f o s' tr
      by (intro res_step [of e w0 s s' "[EvPost url body]" "unsent pc"]) simp_all
  next
    case (W_write f d)
    obtain pc w where r: "write_step e f d (pworld s) = (pc, w)"
      by (cases "write_step e f d (pworld s)")
    then have s': "s' = s\<lparr>pworld := w, workers := (workers s)[i := pc]\<rparr>"
      using st i W_write by (auto simp: worker_step_def)
    have o: "set (outcomes s') = set (outcomes s) \<union> set (unsent pc)"
      using i W_write s' by (intro outcomes_update_grow [of i s]) simp_all
    let ?dest = "getOutputPath (goos e) f"
    obtain wr where tr: "trace w = trace (pworld s) @ [EvWriteFile ?dest d wr]"
      and new: "\<forall>r \<in> set (unsent pc).
                  result_ok e (new_events w0 (pworld s) @ [EvWriteFile ?dest d wr]) (fs w) r"
      and keep: "\<forall>p. fs (pworld s) p \<noteq> None \<longrightarrow> fs w p \<noteq> None"
      using write_step_res [OF r, of "new_events w0 (pworld s)"] by blast
    have "\<not> written [EvWriteFile ?dest d wr] []"
      using getOutputPath_not_Nil [of "goos e" f] by simp
    then show ?thesis
      using res o s' tr new keep
      by (intro res_step [of e w0 s s' "[EvWriteFile ?dest d wr]" "unsent pc"]) simp_all
  next
    case (W_send r)
    then have s': "s' = s\<lparr>results := results s @ [r], workers := (workers s)[i := W_recv]\<rparr>"
      using st i by (auto simp: worker_step_def split: if_splits)
    have "set (outcomes s') = set (outcomes s)"
      using set_unsent_send [OF i W_send] s' by (auto simp: outcomes_def)
    then show ?thesis using res s' by (intro res_same [of e w0 s s']) simp_all
  next
    case W_done
    then show ?thesis using st i by (simp add: worker_step_def)
  qed
qed

lemma main_step_res:
  assumes res: "res_inv e w0 s"
    and st: "main_step config files s = Steps s'"
  shows "res_inv e w0 s'"
proof -
  have "pworld s' = pworld s \<and> set (outcomes s') = set (outcomes s)"
    using st
    by (auto simp: main_step_def outcomes_def split: main_pc.splits list.splits if_splits)
  then show ?thesis using res by (intro res_same [of e w0 s s']) simp_all
qed

lemma closer_step_res:
  assumes res: "res_inv e w0 s"
    and st: "closer_step s = Steps s'"
  shows "res_inv e w0 s'"
proof -
  have "pworld s' = pworld s \<and> set (outcomes s') = set (outcomes s)"
    using st
    by (auto simp: closer_step_def outcomes_def split: closer_pc.splits if_splits)
  then show ?thesis using res by (intro res_same [of e w0 s s']) simp_all
qed

lemma exec_res:
  "res_inv e w0 s \<Longrightarrow> exec e config files sched s = Some s' \<Longrightarrow> res_inv e w0 s'"
proof (induction sched arbitrary: s)
  case Nil
  then show ?case by simp
next
  case (Cons t sched)
  then obtain s1 where st: "step e config files t s = Steps s1"
    and rest: "exec e config files sched s1 = Some s'"
    by (auto split: outcome.splits)
  have "res_inv e w0 s1"
    using st Cons.prems(1)
    by (cases t) (auto intro: main_step_res closer_step_res worker_step_res)
  then show ?case using Cons.IH rest by simp
qed

lemma init_res: "res_inv e w0 (init_pool w0)"
  by (simp add: res_inv_def init_pool_def outcomes_def new_events_def)

text \<open>
  C9. In every state of every run of the pool, every result that a worker has produced
  (about to be sent, in the channel, or collected) has no error exactly when its output
  path is a file written during the run: on success the output path is the destination
  path of its job, a write to it went through, and the file exists; on failure the error
  is set and the output path is empty, which no write goes to.
\<close>

theorem result_error_iff_written:
  assumes run: "exec e config files sched (init_pool w) = Some s"
    and r: "r \<in> set (outcomes s)"
  shows "(Error r = None \<longleftrightarrow> written (new_events w (pworld s)) (OutputPath r))
     \<and> (Error r = None \<longrightarrow>
          OutputPath r = getOutputPath (goos e) (FilePath r)
          \<and> fs (pworld s) (OutputPath r) \<noteq> None)
     \<and> (Error r \<noteq> None \<longrightarrow> OutputPath r = [])"
proof -
  have res: "res_inv e w s" using init_res run by (rule exec_res)
  then have ok: "result_ok e (new_events w (pworld s)) (fs (pworld s)) r"
    and nw: "\<not> written (new_events w (pworld s)) []"
    using r by (simp_all add: res_inv_def)
  show ?thesis
  proof (cases "Error r = None")
    case True
    then show ?thesis using ok by (auto simp: result_ok_def)
  next
    case False
    then have "OutputPath r = []" using ok by (simp add: result_ok_def)
    then show ?thesis using False nw by auto
  qed
qed

lemma run_sched2_events:
  "\<exists>s. exec (scenario_env always_ok) scenario_config [''a.txt'', ''b.txt''] sched2
         (init_pool scenario_world) = Some s
       \<and> pc_main s = M_returned
       \<and> outcomes s = [\<lparr>FilePath = ''b.txt'', OutputPath = ''b.mp3'', Error = None\<rparr>,
                        \<lparr>FilePath = ''a.txt'', OutputPath = ''a.mp3'', Error = None\<rparr>]
       \<and> allResults s = outcomes s"
  by (simp add: sched2_def eval_defs outcomes_def)

theorem result_error_iff_written_witness:
  "\<lparr>FilePath = ''b.txt'', OutputPath = ''b.mp3'', Error = None\<rparr>
     \<in> set (processed (scenario_env always_ok) scenario_config sched2 scenario_world
              [''a.txt'', ''b.txt''])
   \<and> written (events_of_run (scenario_env always_ok) [''a.txt'', ''b.txt''] scenario_config
                sched2 scenario_world) ''b.mp3''"
proof -
  let ?r = "\<lparr>FilePath = ''b.txt'', OutputPath = ''b.mp3'', Error = None\<rparr>"
  obtain s where run: "exec (scenario_env always_ok) scenario_config [''a.txt'', ''b.txt''] sched2
         (init_pool scenario_world) = Some s"
    and ret: "pc_main s = M_returned"
    and o: "outcomes s = [?r, \<lparr>FilePath = ''a.txt'', OutputPath = ''a.mp3'', Error = None\<rparr>]"
    and a: "allResults s = outcomes s"
    using run_sched2_events by blast
  have r: "?r \<in> set (outcomes s)" using o by simp
  have "(Error ?r = None) = written (new_events scenario_world (pworld s)) (OutputPath ?r)"
    using result_error_iff_written [OF run r] by (rule conjunct1)
  then have "written (new_events scenario_world (pworld s)) ''b.mp3''"
    by simp
  then show ?thesis
    using run ret o a by (simp add: processed_def events_of_run_def processFiles_def)
qed

end
